theory Spec2Isabelle
  imports Complex_Main
begin

section \<open>Single-precision arithmetic\<close>

text \<open>
  The program computes with C++ \<^verbatim>\<open>float\<close>: IEEE 754 binary32, every operation
  rounded to nearest, ties to even, each operation on its own (no fused multiply-add, no
  wider intermediate precision). A value is a finite real on the binary32 grid, an
  infinity or a NaN. The two zeros are identified; they behave differently only as
  divisors, and the program never divides by a zero of either sign on the inputs
  studied below.
\<close>

datatype f32 = Fin real | PInf | NInf | NaN

text \<open>Rounding to the nearest integer, a tie going to the even neighbour.\<close>

definition rhe :: "real \<Rightarrow> int" where
  "rhe x =
     (let f = \<lfloor>x\<rfloor>; d = x - of_int f
      in if d < 1 / 2 then f else if 1 / 2 < d then f + 1 else if even f then f else f + 1)"

text \<open>
  The binade of a magnitude \<open>a\<close>: the largest \<open>E \<le> k\<close> with \<open>2 ^ E \<le> a * 2 ^ 126\<close>, and 0
  for the subnormal range. The grid spacing in binade \<open>E\<close> is \<open>2 ^ E / 2 ^ 149\<close>.
\<close>

fun binade :: "nat \<Rightarrow> real \<Rightarrow> nat" where
  "binade 0 a = 0"
| "binade (Suc k) a = (if 2 ^ Suc k \<le> a * 2 ^ 126 then Suc k else binade k a)"

definition ulp :: "real \<Rightarrow> real" where
  "ulp x = 2 ^ binade 253 \<bar>x\<bar> / 2 ^ 149"

text \<open>
  Rounding with an unbounded exponent range above, and the rounding of binary32: a result
  of magnitude \<open>2 ^ 128\<close> or more is an infinity.
\<close>

definition rfin :: "real \<Rightarrow> real" where
  "rfin x = of_int (rhe (x / ulp x)) * ulp x"

definition rnd :: "real \<Rightarrow> f32" where
  "rnd x =
     (let r = rfin x
      in if 2 ^ 128 \<le> r then PInf else if r \<le> - (2 ^ 128) then NInf else Fin r)"

text \<open>The comparisons of C++ on floats: every comparison with a NaN is false.\<close>

fun flt :: "f32 \<Rightarrow> f32 \<Rightarrow> bool" where
  "flt (Fin x) (Fin y) = (x < y)"
| "flt (Fin x) PInf = True"
| "flt NInf (Fin y) = True"
| "flt NInf PInf = True"
| "flt _ _ = False"

definition fgt :: "f32 \<Rightarrow> f32 \<Rightarrow> bool" where
  "fgt a b = flt b a"

fun feq :: "f32 \<Rightarrow> f32 \<Rightarrow> bool" where
  "feq (Fin x) (Fin y) = (x = y)"
| "feq PInf PInf = True"
| "feq NInf NInf = True"
| "feq _ _ = False"

definition fle :: "f32 \<Rightarrow> f32 \<Rightarrow> bool" where
  "fle a b = (flt a b \<or> feq a b)"

fun fneg :: "f32 \<Rightarrow> f32" where
  "fneg (Fin x) = Fin (- x)"
| "fneg PInf = NInf"
| "fneg NInf = PInf"
| "fneg NaN = NaN"

fun fadd :: "f32 \<Rightarrow> f32 \<Rightarrow> f32" where
  "fadd (Fin x) (Fin y) = rnd (x + y)"
| "fadd NaN _ = NaN"
| "fadd _ NaN = NaN"
| "fadd PInf NInf = NaN"
| "fadd NInf PInf = NaN"
| "fadd PInf _ = PInf"
| "fadd NInf _ = NInf"
| "fadd (Fin x) b = b"

definition fsub :: "f32 \<Rightarrow> f32 \<Rightarrow> f32" where
  "fsub a b = fadd a (fneg b)"

text \<open>The sign of an infinite product or quotient, from the sign of a finite factor.\<close>

definition inf_of_sign :: "real \<Rightarrow> f32" where
  "inf_of_sign x = (if x = 0 then NaN else if 0 < x then PInf else NInf)"

fun fmul :: "f32 \<Rightarrow> f32 \<Rightarrow> f32" where
  "fmul (Fin x) (Fin y) = rnd (x * y)"
| "fmul NaN _ = NaN"
| "fmul _ NaN = NaN"
| "fmul (Fin x) PInf = inf_of_sign x"
| "fmul (Fin x) NInf = inf_of_sign (- x)"
| "fmul PInf (Fin y) = inf_of_sign y"
| "fmul NInf (Fin y) = inf_of_sign (- y)"
| "fmul PInf PInf = PInf"
| "fmul NInf NInf = PInf"
| "fmul PInf NInf = NInf"
| "fmul NInf PInf = NInf"

fun fdiv :: "f32 \<Rightarrow> f32 \<Rightarrow> f32" where
  "fdiv (Fin x) (Fin y) = (if y = 0 then inf_of_sign x else rnd (x / y))"
| "fdiv NaN _ = NaN"
| "fdiv _ NaN = NaN"
| "fdiv (Fin x) _ = Fin 0"
| "fdiv PInf (Fin y) = (if 0 \<le> y then PInf else NInf)"
| "fdiv NInf (Fin y) = (if 0 \<le> y then NInf else PInf)"
| "fdiv _ _ = NaN"

text \<open>A value that is not a NaN and not below zero.\<close>

fun nonneg :: "f32 \<Rightarrow> bool" where
  "nonneg (Fin x) = (0 \<le> x)"
| "nonneg PInf = True"
| "nonneg _ = False"

text \<open>A finite value that is not below zero.\<close>

fun fin_nonneg :: "f32 \<Rightarrow> bool" where
  "fin_nonneg (Fin x) = (0 \<le> x)"
| "fin_nonneg _ = False"

text \<open>A finite value between zero and a bound.\<close>

fun upTo :: "real \<Rightarrow> f32 \<Rightarrow> bool" where
  "upTo B (Fin x) = (0 \<le> x \<and> x \<le> B)"
| "upTo B _ = False"

text \<open>
  \<open>Fin\<close> holds any real; the values of a \<^verbatim>\<open>float\<close> variable are those that rounding
  leaves unchanged.
\<close>

fun representable :: "f32 \<Rightarrow> bool" where
  "representable (Fin x) = (rnd x = Fin x)"
| "representable _ = True"

text \<open>The real value of a finite float, and 0 for the others.\<close>

fun val :: "f32 \<Rightarrow> real" where
  "val (Fin x) = x"
| "val _ = 0"

text \<open>The conversion of an \<^verbatim>\<open>unsigned\<close> to \<^verbatim>\<open>float\<close>.\<close>

definition of_unsigned :: "nat \<Rightarrow> f32" where
  "of_unsigned n = rnd (of_nat n)"

text \<open>\<^verbatim>\<open>numeric_limits<float>::max()\<close>, the largest finite value.\<close>

definition FLT_MAX :: f32 where
  "FLT_MAX = Fin ((2 ^ 24 - 1) * 2 ^ 104)"

section \<open>The technology catalogue and the workload\<close>

text \<open>
  The constants of the source. \<^verbatim>\<open>ms\<close>, \<^verbatim>\<open>us\<close> and \<^verbatim>\<open>ns\<close> are quotients computed in
  double precision and then converted; for these three values the conversion of the
  double equals the rounding of the exact quotient. The others are exact.
\<close>

definition ms :: f32 where "ms = rnd (1 / 10 ^ 3)"
definition us :: f32 where "us = rnd (1 / 10 ^ 6)"
definition ns :: f32 where "ns = rnd (1 / 10 ^ 9)"
definition MB :: f32 where "MB = Fin (1024 * 1024)"
definition GB :: f32 where "GB = fmul (Fin 1024) MB"
definition TB :: f32 where "TB = fmul (Fin 1024) GB"
definition K :: f32 where "K = Fin 1000"
definition M :: f32 where "M = Fin 1000000"

record Tech =
  name :: string
  capacity :: f32
  cost :: f32
  IOs :: f32
  latency :: f32
  max_t :: nat

text \<open>
  \<^verbatim>\<open>techs\<close> is a global variable of the source. The functions below take the catalogue
  as their first argument; \<open>techs\<close> is the value the source gives it.
\<close>

definition techs :: "Tech list" where
  "techs =
    [\<lparr>name = ''RAM'', capacity = fmul (Fin 64) GB, cost = Fin 500,
      IOs = fmul (Fin 10) M, latency = fmul (Fin 100) ns, max_t = 16\<rparr>,
     \<lparr>name = ''NVM'', capacity = fmul (Fin 256) GB, cost = Fin 500,
      IOs = fmul (Fin 5) M, latency = fmul (Fin 400) ns, max_t = 8\<rparr>,
     \<lparr>name = ''SSD'', capacity = fmul (Fin 1) TB, cost = Fin 500,
      IOs = fmul (Fin 500) K, latency = fmul (Fin 100) us, max_t = 16\<rparr>,
     \<lparr>name = ''HDD'', capacity = fmul (Fin 4) TB, cost = Fin 200,
      IOs = Fin 100, latency = fmul (Fin 10) ms, max_t = 16\<rparr>]"

record AccessGroup =
  fraction :: f32
  size_g :: f32

type_synonym Config = "nat list"
type_synonym Workload = "AccessGroup list"

text \<open>
  Device counts are \<^verbatim>\<open>unsigned\<close> in the source and natural numbers here: the program
  never does arithmetic on a count beyond a loop increment bounded by \<open>max_t\<close>. An index
  past the end of a vector is undefined behaviour in the source and the error
  \<open>OutOfRange\<close> here.
\<close>

datatype error = OutOfRange

section \<open>The feasibility check\<close>

text \<open>The expression \<^verbatim>\<open>config[t] * techs[t].capacity\<close>.\<close>

definition tierCapacity :: "Tech list \<Rightarrow> Config \<Rightarrow> nat \<Rightarrow> f32" where
  "tierCapacity ts config t = fmul (of_unsigned (config ! t)) (capacity (ts ! t))"

definition sumSpaceNeeded :: "Workload \<Rightarrow> f32" where
  "sumSpaceNeeded workload = foldl (\<lambda>s g. fadd s (size_g g)) (Fin 0) workload"

definition indexes :: "Tech list \<Rightarrow> Config \<Rightarrow> nat list" where
  "indexes ts config = filter (\<lambda>t. config ! t \<noteq> 0) [0..<length ts]"

text \<open>The loop over adjacent populated levels; False is the early \<^verbatim>\<open>return false\<close>.\<close>

fun inclusive :: "Tech list \<Rightarrow> Config \<Rightarrow> nat list \<Rightarrow> bool" where
  "inclusive ts config (a # b # is) =
     (if flt (tierCapacity ts config b) (tierCapacity ts config a) then False
      else inclusive ts config (b # is))"
| "inclusive ts config _ = True"

definition isValid :: "Tech list \<Rightarrow> Config \<Rightarrow> Workload \<Rightarrow> error + bool" where
  "isValid ts config workload =
     (if config = [] then Inl OutOfRange
      else if config ! 0 = 0 then Inr False
      else if length config < length ts then Inl OutOfRange
      else if \<not> inclusive ts config (indexes ts config) then Inr False
      else if indexes ts config = [] then Inl OutOfRange
      else if flt (tierCapacity ts config (last (indexes ts config))) (sumSpaceNeeded workload)
        then Inr False
      else Inr True)"

section \<open>Cost and time\<close>

definition configCost :: "Tech list \<Rightarrow> Config \<Rightarrow> error + f32" where
  "configCost ts config =
     (if length config < length ts then Inl OutOfRange
      else Inr (foldl (\<lambda>c i. fadd c (fmul (of_unsigned (config ! i)) (cost (ts ! i))))
                  (Fin 0) [0..<length ts]))"

definition avgTimePerAccess :: "Tech list \<Rightarrow> f32 list \<Rightarrow> error + f32" where
  "avgTimePerAccess ts accessFractions =
     (if length ts < length accessFractions then Inl OutOfRange
      else Inr (foldl (\<lambda>s i. fadd s (fmul (accessFractions ! i) (fdiv (Fin 1) (IOs (ts ! i)))))
                  (Fin 0) [0..<length accessFractions]))"

definition avgLatencyPerAccess :: "Tech list \<Rightarrow> f32 list \<Rightarrow> error + f32" where
  "avgLatencyPerAccess ts accessFractions =
     (if length ts < length accessFractions then Inl OutOfRange
      else Inr (foldl (\<lambda>s i. fadd s (fmul (accessFractions ! i) (latency (ts ! i))))
                  (Fin 0) [0..<length accessFractions]))"

section \<open>The workload simulator\<close>

text \<open>The local state of \<^verbatim>\<open>computeAccessFractions\<close>.\<close>

record sim =
  fractionsOut :: "f32 list"
  tech :: nat
  techCapacity :: f32

text \<open>
  The body of the loop over the workload for one group \<open>g\<close>, a copy of the workload's
  element: the inner \<^verbatim>\<open>while (true)\<close>.
\<close>

function placeGroup :: "Tech list \<Rightarrow> Config \<Rightarrow> AccessGroup \<Rightarrow> sim \<Rightarrow> error + sim" where
  "placeGroup ts config g s =
     (if \<not> tech s < length (fractionsOut s) then Inl OutOfRange
      else if fgt (size_g g) (techCapacity s) then
        (let f = fmul (fdiv (techCapacity s) (size_g g)) (fraction g);
             out = (fractionsOut s)[tech s := fadd (fractionsOut s ! tech s) f];
             g' = g\<lparr>fraction := fsub (fraction g) f\<rparr>;
             tech' = tech s + 1
         in if tech' < length config \<and> tech' < length ts
            then placeGroup ts config g'
                   \<lparr>fractionsOut = out, tech = tech', techCapacity = tierCapacity ts config tech'\<rparr>
            else Inl OutOfRange)
      else Inr \<lparr>fractionsOut = (fractionsOut s)[tech s := fadd (fractionsOut s ! tech s) (fraction g)],
                tech = tech s,
                techCapacity = fsub (techCapacity s) (size_g g)\<rparr>)"
  by pat_completeness auto
termination
  by (relation "measure (\<lambda>(ts, config, g, s). length ts - tech s)") auto

declare placeGroup.simps [simp del]

text \<open>
  The states of the simulator after each assignment to \<^verbatim>\<open>techCapacity\<close>, in order: those
  of the inner loop for one group, and those of the loop over the workload.
\<close>

function groupStates :: "Tech list \<Rightarrow> Config \<Rightarrow> AccessGroup \<Rightarrow> sim \<Rightarrow> sim list" where
  "groupStates ts config g s =
     (if \<not> tech s < length (fractionsOut s) then []
      else if fgt (size_g g) (techCapacity s) then
        (let f = fmul (fdiv (techCapacity s) (size_g g)) (fraction g);
             out = (fractionsOut s)[tech s := fadd (fractionsOut s ! tech s) f];
             g' = g\<lparr>fraction := fsub (fraction g) f\<rparr>;
             tech' = tech s + 1;
             s' = \<lparr>fractionsOut = out, tech = tech', techCapacity = tierCapacity ts config tech'\<rparr>
         in if tech' < length config \<and> tech' < length ts
            then s' # groupStates ts config g' s'
            else [])
      else [\<lparr>fractionsOut = (fractionsOut s)[tech s := fadd (fractionsOut s ! tech s) (fraction g)],
             tech = tech s,
             techCapacity = fsub (techCapacity s) (size_g g)\<rparr>])"
  by pat_completeness auto
termination
  by (relation "measure (\<lambda>(ts, config, g, s). length ts - tech s)") auto

declare groupStates.simps [simp del]

fun placeGroups :: "Tech list \<Rightarrow> Config \<Rightarrow> Workload \<Rightarrow> sim \<Rightarrow> error + sim" where
  "placeGroups ts config [] s = Inr s"
| "placeGroups ts config (g # gs) s =
     (case placeGroup ts config g s of Inl e \<Rightarrow> Inl e | Inr s' \<Rightarrow> placeGroups ts config gs s')"

fun workloadStates :: "Tech list \<Rightarrow> Config \<Rightarrow> Workload \<Rightarrow> sim \<Rightarrow> sim list" where
  "workloadStates ts config [] s = []"
| "workloadStates ts config (g # gs) s =
     groupStates ts config g s @
     (case placeGroup ts config g s of Inl e \<Rightarrow> [] | Inr s' \<Rightarrow> workloadStates ts config gs s')"

text \<open>
  The three arguments are references in the source; the result is their values when the
  function returns.
\<close>

definition computeAccessFractions ::
  "Tech list \<Rightarrow> Workload \<Rightarrow> Config \<Rightarrow> f32 list \<Rightarrow> error + Workload \<times> Config \<times> f32 list" where
  "computeAccessFractions ts workload config out =
     (if config = [] \<or> ts = [] then Inl OutOfRange
      else case placeGroups ts config workload
                  \<lparr>fractionsOut = map (\<lambda>_. Fin 0) out, tech = 0,
                   techCapacity = tierCapacity ts config 0\<rparr> of
             Inl e \<Rightarrow> Inl e
           | Inr s \<Rightarrow> Inr (workload, config, fractionsOut s))"

section \<open>The configuration search\<close>

text \<open>
  The variables that the closure \<^verbatim>\<open>enumerate\<close> captures by reference, with the
  configuration it is passed by reference.
\<close>

record search =
  config :: Config
  accessFractions :: "f32 list"
  bestCost :: f32
  bestTime :: f32
  bestConfig :: Config
  bestAccessFractions :: "f32 list"

text \<open>The branch \<^verbatim>\<open>configPos == techs.size()\<close> of the closure: one complete configuration.\<close>

definition leaf :: "Tech list \<Rightarrow> Workload \<Rightarrow> f32 \<Rightarrow> bool \<Rightarrow> search \<Rightarrow> error + search" where
  "leaf ts workload costLimit optimizeThroughput st =
     (case isValid ts (config st) workload of
        Inl e \<Rightarrow> Inl e
      | Inr False \<Rightarrow> Inr st
      | Inr True \<Rightarrow>
         (case configCost ts (config st) of
            Inl e \<Rightarrow> Inl e
          | Inr cst \<Rightarrow>
             if flt cst costLimit then
               (case computeAccessFractions ts workload (config st) (accessFractions st) of
                  Inl e \<Rightarrow> Inl e
                | Inr (w, c, fr) \<Rightarrow>
                   (case (if optimizeThroughput then avgTimePerAccess ts fr
                          else avgLatencyPerAccess ts fr) of
                      Inl e \<Rightarrow> Inl e
                    | Inr time \<Rightarrow>
                       if flt time (bestTime st) \<or> (feq time (bestTime st) \<and> flt cst (bestCost st))
                       then Inr (st\<lparr>accessFractions := fr, bestTime := time, bestConfig := c,
                                     bestAccessFractions := fr, bestCost := cst\<rparr>)
                       else Inr (st\<lparr>accessFractions := fr\<rparr>)))
             else Inr st))"

text \<open>
  The closure \<^verbatim>\<open>enumerate\<close> and its loop over the device count of one tier.
\<close>

function enumerate' :: "Tech list \<Rightarrow> Workload \<Rightarrow> f32 \<Rightarrow> bool \<Rightarrow> nat \<Rightarrow> search \<Rightarrow> error + search"
  and forCount :: "Tech list \<Rightarrow> Workload \<Rightarrow> f32 \<Rightarrow> bool \<Rightarrow> nat \<Rightarrow> nat \<Rightarrow> search \<Rightarrow> error + search"
where
  "enumerate' ts workload costLimit opt configPos st =
     (if configPos = length ts then leaf ts workload costLimit opt st
      else if length ts < configPos then Inl OutOfRange
      else forCount ts workload costLimit opt configPos 0 st)"
| "forCount ts workload costLimit opt configPos count st =
     (if \<not> configPos < length ts then Inl OutOfRange
      else if count < max_t (ts ! configPos) then
        (if configPos < length (config st) then
           (case enumerate' ts workload costLimit opt (configPos + 1)
                   (st\<lparr>config := (config st)[configPos := count]\<rparr>) of
              Inl e \<Rightarrow> Inl e
            | Inr st' \<Rightarrow> forCount ts workload costLimit opt configPos (count + 1) st')
         else Inl OutOfRange)
      else Inr st)"
  by pat_completeness auto
termination
  by (relation "measures
        [\<lambda>x. case x of Inl (ts, w, l, opt, configPos, st) \<Rightarrow> length ts - configPos
                      | Inr (ts, w, l, opt, configPos, count, st) \<Rightarrow> length ts - configPos,
         \<lambda>x. case x of Inl (ts, w, l, opt, configPos, st) \<Rightarrow> max_t (ts ! configPos) + 1
                      | Inr (ts, w, l, opt, configPos, count, st) \<Rightarrow> max_t (ts ! configPos) - count]")
     auto

declare enumerate'.simps [simp del] forCount.simps [simp del]

text \<open>
  \<^verbatim>\<open>findBestConfig\<close> returns the best configuration and prints its access fractions, its
  cost and the reciprocal of its time; here it returns the final state, which holds all
  four.
\<close>

definition findBestConfig :: "Tech list \<Rightarrow> Workload \<Rightarrow> f32 \<Rightarrow> bool \<Rightarrow> error + search" where
  "findBestConfig ts workload costLimit optimizeThroughput =
     enumerate' ts workload costLimit optimizeThroughput 0
       \<lparr>config = replicate (length ts) 0,
        accessFractions = replicate (length ts) (Fin 0),
        bestCost = FLT_MAX,
        bestTime = FLT_MAX,
        bestConfig = replicate (length ts) 0,
        bestAccessFractions = replicate (length ts) (Fin 0)\<rparr>"

section \<open>The specification's reading of feasibility\<close>

text \<open>
  The three rules of the feasibility check as the specification words them, in the
  arithmetic of the reals on finite values: the total capacity of a tier is its device
  count times its per-device capacity, and the space needed is the sum of all the sizes.
  Tier 0 is populated; among the populated tiers, in tier order, none has a total
  capacity strictly less than the populated tier before it; the last populated tier's
  total capacity is not strictly less than the sum of the sizes.
\<close>

definition totalCapacity :: "Tech list \<Rightarrow> Config \<Rightarrow> nat \<Rightarrow> real" where
  "totalCapacity ts c t = of_nat (c ! t) * val (capacity (ts ! t))"

definition sizeSum :: "Workload \<Rightarrow> real" where
  "sizeSum w = sum_list (map (\<lambda>g. val (size_g g)) w)"

definition feasible :: "Tech list \<Rightarrow> Config \<Rightarrow> Workload \<Rightarrow> bool" where
  "feasible ts c w =
     (let populated = filter (\<lambda>t. c ! t \<noteq> 0) [0..<length ts]
      in c ! 0 \<noteq> 0
         \<and> list_all (\<lambda>(a, b). \<not> totalCapacity ts c b < totalCapacity ts c a)
              (zip populated (tl populated))
         \<and> \<not> totalCapacity ts c (last populated) < sizeSum w)"

section \<open>The search as a fold over all configurations\<close>

text \<open>
  The configurations the search visits, in the order it visits them: the counts of tier 0
  vary slowest, each tier's count runs over \<open>[0..<max_t]\<close>.
\<close>

fun allConfigs :: "Tech list \<Rightarrow> Config list" where
  "allConfigs [] = [[]]"
| "allConfigs (t # ts) = concat (map (\<lambda>n. map ((#) n) (allConfigs ts)) [0..<max_t t])"

text \<open>The leaf evaluation at each configuration of a list in turn, stopping at an error.\<close>

fun leaves :: "Tech list \<Rightarrow> Workload \<Rightarrow> f32 \<Rightarrow> bool \<Rightarrow> Config list \<Rightarrow> search \<Rightarrow> error + search" where
  "leaves ts w l opt [] st = Inr st"
| "leaves ts w l opt (c # cs) st =
     (case leaf ts w l opt (st\<lparr>config := c\<rparr>) of
        Inl e \<Rightarrow> Inl e
      | Inr st' \<Rightarrow> leaves ts w l opt cs st')"

text \<open>
  A result without the scratch configuration, which holds the last counts the loops
  assigned and is not read again.
\<close>

definition erase :: "error + search \<Rightarrow> error + search" where
  "erase r = map_sum id (\<lambda>st. st\<lparr>config := []\<rparr>) r"

text \<open>The state \<^verbatim>\<open>findBestConfig\<close> starts from.\<close>

definition initial :: "Tech list \<Rightarrow> search" where
  "initial ts =
     \<lparr>config = replicate (length ts) 0,
      accessFractions = replicate (length ts) (Fin 0),
      bestCost = FLT_MAX,
      bestTime = FLT_MAX,
      bestConfig = replicate (length ts) 0,
      bestAccessFractions = replicate (length ts) (Fin 0)\<rparr>"

text \<open>
  A configuration the search may accept: valid and strictly under the cost limit. Its
  time is the chosen metric of its access fractions.
\<close>

definition candidate :: "Tech list \<Rightarrow> Workload \<Rightarrow> f32 \<Rightarrow> Config \<Rightarrow> bool" where
  "candidate ts w l c =
     (isValid ts c w = Inr True \<and> (case configCost ts c of Inl e \<Rightarrow> False | Inr cst \<Rightarrow> flt cst l))"

definition timeOf :: "Tech list \<Rightarrow> Workload \<Rightarrow> bool \<Rightarrow> Config \<Rightarrow> error + f32" where
  "timeOf ts w opt c =
     (case computeAccessFractions ts w c (replicate (length ts) (Fin 0)) of
        Inl e \<Rightarrow> Inl e
      | Inr (w', c', fr) \<Rightarrow> if opt then avgTimePerAccess ts fr else avgLatencyPerAccess ts fr)"

section \<open>A small catalogue\<close>

text \<open>
  The single-tier catalogue of the specification's first scenario, on which a whole search
  can be evaluated.
\<close>

definition scenario1 :: "Tech list" where
  "scenario1 = [\<lparr>name = ''T'', capacity = Fin 100, cost = Fin 10, IOs = Fin 1000,
                  latency = rnd (1 / 10 ^ 6), max_t = 5\<rparr>]"

text \<open>The states of one call of \<open>computeAccessFractions\<close>, the initial one first.\<close>

definition simStates :: "Tech list \<Rightarrow> Workload \<Rightarrow> Config \<Rightarrow> f32 list \<Rightarrow> sim list" where
  "simStates ts workload c out =
     (let s0 = \<lparr>fractionsOut = map (\<lambda>_. Fin 0) out, tech = 0,
                 techCapacity = tierCapacity ts c 0\<rparr>
      in s0 # workloadStates ts c workload s0)"

text \<open>
  A group as the data model has it: a finite fraction that is not negative, a value of a
  \<^verbatim>\<open>float\<close>, and a finite size that is not negative. A simulator state whose capacity
  counter and fractions are not negative.
\<close>

definition wellFormed :: "AccessGroup \<Rightarrow> bool" where
  "wellFormed g = (fin_nonneg (fraction g) \<and> representable (fraction g) \<and> fin_nonneg (size_g g))"

definition simNonneg :: "sim \<Rightarrow> bool" where
  "simNonneg s = (nonneg (techCapacity s) \<and> list_all nonneg (fractionsOut s))"

section \<open>The order of the search\<close>

text \<open>
  The order in which the search prefers one scored configuration to another: a strictly
  lower time wins; at equal time a strictly lower cost wins; at equal time and cost the
  one met first wins. The third component is the position in the enumeration.
\<close>

fun precedes :: "f32 \<times> f32 \<times> nat \<Rightarrow> f32 \<times> f32 \<times> nat \<Rightarrow> bool" where
  "precedes (t1, c1, i1) (t2, c2, i2) =
     (flt t1 t2 \<or> (feq t1 t2 \<and> (flt c1 c2 \<or> (feq c1 c2 \<and> i1 \<le> i2))))"

text \<open>
  The best fields of a state are those of the \<open>i\<close>-th configuration of the enumeration, a
  candidate, and it precedes every candidate among the first \<open>n\<close>.
\<close>

definition optimalAmong :: "Tech list \<Rightarrow> Workload \<Rightarrow> f32 \<Rightarrow> bool \<Rightarrow> nat \<Rightarrow> nat \<Rightarrow> search \<Rightarrow> bool" where
  "optimalAmong ts w l opt n i s =
     (i < n \<and> bestConfig s = allConfigs ts ! i \<and> candidate ts w l (allConfigs ts ! i)
      \<and> timeOf ts w opt (allConfigs ts ! i) = Inr (bestTime s)
      \<and> configCost ts (allConfigs ts ! i) = Inr (bestCost s)
      \<and> (\<forall>j<n. candidate ts w l (allConfigs ts ! j) \<longrightarrow>
            (\<exists>t cst. timeOf ts w opt (allConfigs ts ! j) = Inr t
                     \<and> configCost ts (allConfigs ts ! j) = Inr cst
                     \<and> precedes (bestTime s, bestCost s, i) (t, cst, j))))"

section \<open>Mass and rounding errors\<close>

text \<open>The sum of the real values of a vector.\<close>

definition total :: "f32 list \<Rightarrow> real" where
  "total xs = sum_list (map val xs)"

text \<open>
  The operands of every single-precision addition the simulator performs on fractions, in
  order: \<^verbatim>\<open>fractionsOut[tech] += f\<close> and \<^verbatim>\<open>g.fraction -= f\<close> when a group does not fit,
  \<^verbatim>\<open>fractionsOut[tech] += g.fraction\<close> when it does. A subtraction is the addition of the
  negated operand.
\<close>

function groupOps :: "Tech list \<Rightarrow> Config \<Rightarrow> AccessGroup \<Rightarrow> sim \<Rightarrow> (f32 \<times> f32) list" where
  "groupOps ts c g s =
     (if \<not> tech s < length (fractionsOut s) then []
      else if fgt (size_g g) (techCapacity s) then
        (let f = fmul (fdiv (techCapacity s) (size_g g)) (fraction g);
             out = (fractionsOut s)[tech s := fadd (fractionsOut s ! tech s) f];
             g' = g\<lparr>fraction := fsub (fraction g) f\<rparr>;
             tech' = tech s + 1;
             s' = \<lparr>fractionsOut = out, tech = tech', techCapacity = tierCapacity ts c tech'\<rparr>
         in (fractionsOut s ! tech s, f) # (fraction g, fneg f) #
            (if tech' < length c \<and> tech' < length ts then groupOps ts c g' s' else []))
      else [(fractionsOut s ! tech s, fraction g)])"
  by pat_completeness auto
termination
  by (relation "measure (\<lambda>(ts, c, g, s). length ts - tech s)") auto

declare groupOps.simps [simp del]

fun workloadOps :: "Tech list \<Rightarrow> Config \<Rightarrow> Workload \<Rightarrow> sim \<Rightarrow> (f32 \<times> f32) list" where
  "workloadOps ts c [] s = []"
| "workloadOps ts c (g # gs) s =
     groupOps ts c g s @
     (case placeGroup ts c g s of Inl e \<Rightarrow> [] | Inr s' \<Rightarrow> workloadOps ts c gs s')"

definition simOps :: "Tech list \<Rightarrow> Workload \<Rightarrow> Config \<Rightarrow> f32 list \<Rightarrow> (f32 \<times> f32) list" where
  "simOps ts workload c out =
     workloadOps ts c workload
       \<lparr>fractionsOut = map (\<lambda>_. Fin 0) out, tech = 0, techCapacity = tierCapacity ts c 0\<rparr>"

text \<open>The rounding error of one addition: the value of the result less the exact sum.\<close>

fun roundErr :: "f32 \<times> f32 \<Rightarrow> real" where
  "roundErr (a, b) = val (fadd a b) - (val a + val b)"

section \<open>Facts about rounding\<close>

lemma binade_le: "binade k a \<le> k"
  by (induction k) auto

lemma binade_lower: "binade k a \<noteq> 0 \<Longrightarrow> 2 ^ binade k a \<le> a * 2 ^ 126"
  by (induction k) (auto split: if_splits)

lemma ulp_pos: "0 < ulp x"
  by (simp add: ulp_def)

lemma ulp_neg: "ulp (- x) = ulp x"
  by (simp add: ulp_def)

lemma rhe_of_int: "rhe (of_int k) = k"
  by (simp add: rhe_def)

text \<open>A value with a 24-bit significand on the grid is its own rounding.\<close>

lemma rfin_exact:
  assumes m: "\<bar>m\<bar> < 2 ^ 24"
  shows "rfin (of_int m * 2 ^ j / 2 ^ 149) = of_int m * 2 ^ j / 2 ^ 149"
proof -
  define x :: real where "x = of_int m * 2 ^ j / 2 ^ 149"
  define E where "E = binade 253 \<bar>x\<bar>"
  have u: "ulp x = 2 ^ E / 2 ^ 149" by (simp add: ulp_def E_def)
  have Ej: "E \<le> j"
  proof (cases "E = 0")
    case True then show ?thesis by simp
  next
    case False
    then have "2 ^ E \<le> \<bar>x\<bar> * 2 ^ 126" unfolding E_def by (rule binade_lower)
    also have "\<bar>x\<bar> * 2 ^ 126 = \<bar>of_int m\<bar> * 2 ^ j / 2 ^ 23"
      by (simp add: x_def abs_mult)
    also have "\<dots> < 2 ^ 24 * 2 ^ j / 2 ^ 23"
    proof -
      have "\<bar>of_int m :: real\<bar> < 2 ^ 24"
        using m by (metis of_int_abs of_int_less_numeral_power_cancel_iff)
      then show ?thesis by (simp add: divide_strict_right_mono)
    qed
    also have "\<dots> = 2 ^ Suc j" by simp
    finally have "(2::real) ^ E < 2 ^ Suc j" .
    then have "E < Suc j"
      by (simp only: power_strict_increasing_iff one_less_numeral_iff semiring_norm)
    then show ?thesis by simp
  qed
  then obtain d where j: "j = E + d" using le_Suc_ex by blast
  have "x / (2 ^ E / 2 ^ 149) = of_int (m * 2 ^ d)"
    by (simp add: x_def j power_add)
  then have "x / ulp x = of_int (m * 2 ^ d)" by (simp only: u)
  then have "rhe (x / ulp x) = m * 2 ^ d" by (simp only: rhe_of_int)
  then have "rfin x = of_int (m * 2 ^ d) * (2 ^ E / 2 ^ 149)" by (simp only: rfin_def u)
  also have "\<dots> = x" by (simp add: x_def j power_add)
  finally show ?thesis by (simp add: x_def)
qed

lemma rnd_grid:
  assumes "\<bar>m\<bar> < 2 ^ 24" "j \<le> 253"
  shows "rnd (of_int m * 2 ^ j / 2 ^ 149) = Fin (of_int m * 2 ^ j / 2 ^ 149)"
proof -
  define x :: real where "x = of_int m * 2 ^ j / 2 ^ 149"
  have am: "\<bar>of_int m :: real\<bar> < 2 ^ 24"
    using assms(1) by (metis of_int_abs of_int_less_numeral_power_cancel_iff)
  have pj: "(2::real) ^ j \<le> 2 ^ 253" using assms(2) by (intro power_increasing) auto
  have "\<bar>of_int m :: real\<bar> * 2 ^ j < 2 ^ 24 * 2 ^ 253"
    by (rule mult_less_le_imp_less [OF am pj]) auto
  then have "\<bar>of_int m :: real\<bar> * 2 ^ j / 2 ^ 149 < 2 ^ 24 * 2 ^ 253 / 2 ^ 149"
    by (rule divide_strict_right_mono) simp
  also have "(2::real) ^ 24 * 2 ^ 253 / 2 ^ 149 = 2 ^ 128" by simp
  finally have "\<bar>x\<bar> < 2 ^ 128" by (simp add: x_def abs_mult)
  then have "\<not> 2 ^ 128 \<le> x" "\<not> x \<le> - (2 ^ 128)" by linarith+
  moreover have "rfin x = x" unfolding x_def by (rule rfin_exact [OF assms(1)])
  ultimately have "rnd x = Fin x" by (simp only: rnd_def Let_def if_False)
  then show ?thesis by (simp only: x_def)
qed

lemma rnd_int:
  assumes "\<bar>m\<bar> < 2 ^ 24" "e \<le> 104"
  shows "rnd (of_int m * 2 ^ e) = Fin (of_int m * 2 ^ e)"
proof -
  have "(2::real) ^ (e + 149) / 2 ^ 149 = 2 ^ e"
    by (simp only: power_add) simp
  then have "of_int m * 2 ^ e = (of_int m * 2 ^ (e + 149) / 2 ^ 149 :: real)"
    by (simp only: times_divide_eq_right [symmetric])
  moreover have "rnd (of_int m * 2 ^ (e + 149) / 2 ^ 149) = Fin (of_int m * 2 ^ (e + 149) / 2 ^ 149)"
    using assms by (intro rnd_grid) auto
  ultimately show ?thesis by (simp only:)
qed

lemma rnd_nat: "n < 2 ^ 24 \<Longrightarrow> rnd (of_nat n) = Fin (of_nat n)"
  using rnd_int [of "int n" 0] by simp

lemma rnd_numeral [simp]: "numeral n < (2::nat) ^ 24 \<Longrightarrow> rnd (numeral n) = Fin (numeral n)"
  using rnd_nat [of "numeral n"] by simp

lemma rnd_0 [simp]: "rnd 0 = Fin 0"
  using rnd_nat [of 0] by simp

lemma rnd_1 [simp]: "rnd 1 = Fin 1"
  using rnd_nat [of 1] by simp

lemma of_unsigned_small: "n < 2 ^ 24 \<Longrightarrow> of_unsigned n = Fin (of_nat n)"
  by (simp add: of_unsigned_def rnd_nat)

text \<open>Rounding a value whose binade is known.\<close>

lemma binade_eq:
  "E \<le> k \<Longrightarrow> E = 0 \<or> 2 ^ E \<le> a * 2 ^ 126 \<Longrightarrow> a * 2 ^ 126 < 2 ^ Suc E \<Longrightarrow> binade k a = E"
proof (induction k)
  case 0 then show ?case by simp
next
  case (Suc k)
  show ?case
  proof (cases "E = Suc k")
    case True
    with Suc.prems show ?thesis by auto
  next
    case False
    with Suc.prems have le: "E \<le> k" by simp
    then have "(2::real) ^ Suc E \<le> 2 ^ Suc k" by (intro power_increasing) auto
    with Suc.prems(3) have "\<not> 2 ^ Suc k \<le> a * 2 ^ 126" by linarith
    with Suc.IH [OF le Suc.prems(2) Suc.prems(3)] show ?thesis by simp
  qed
qed

lemma rfin_binade:
  assumes "E \<le> 253" "E = 0 \<or> 2 ^ E \<le> \<bar>x\<bar> * 2 ^ 126" "\<bar>x\<bar> * 2 ^ 126 < 2 ^ Suc E"
  shows "rfin x = of_int (rhe (x / (2 ^ E / 2 ^ 149))) * (2 ^ E / 2 ^ 149)"
proof -
  have "binade 253 \<bar>x\<bar> = E" using assms by (rule binade_eq)
  then show ?thesis by (simp only: rfin_def ulp_def)
qed

text \<open>Signs.\<close>

lemma rfin_nonneg: "0 \<le> x \<Longrightarrow> 0 \<le> rfin x"
proof -
  assume x: "0 \<le> x"
  then have "0 \<le> x / ulp x" using ulp_pos [of x] by simp
  then have "0 \<le> \<lfloor>x / ulp x\<rfloor>" by simp
  also have "\<dots> \<le> rhe (x / ulp x)" by (simp add: rhe_def Let_def)
  finally have "0 \<le> rhe (x / ulp x)" .
  then show ?thesis using ulp_pos [of x] by (simp add: rfin_def)
qed

lemma rnd_nonneg: "0 \<le> x \<Longrightarrow> nonneg (rnd x)"
  using rfin_nonneg [of x] by (simp add: rnd_def Let_def)

lemma nonneg_cases: "nonneg a \<longleftrightarrow> a = PInf \<or> (\<exists>x\<ge>0. a = Fin x)"
  by (cases a) auto

lemma fadd_nonneg: "nonneg a \<Longrightarrow> nonneg b \<Longrightarrow> nonneg (fadd a b)"
  by (cases a; cases b) (simp_all add: rnd_nonneg)

text \<open>A product of two such values is one of them again, or the NaN of \<open>0 * \<infinity>\<close>.\<close>

lemma fmul_nonneg: "nonneg a \<Longrightarrow> nonneg b \<Longrightarrow> nonneg (fmul a b) \<or> fmul a b = NaN"
  by (cases a; cases b) (simp_all add: rnd_nonneg inf_of_sign_def)

lemma of_unsigned_nonneg: "nonneg (of_unsigned n)"
  by (simp add: of_unsigned_def rnd_nonneg)

lemma not_flt_zero: "nonneg a \<or> a = NaN \<Longrightarrow> \<not> flt a (Fin 0)"
  by (cases a) auto

text \<open>Rounding is monotone.\<close>

lemma binade_upper: "binade k a < k \<Longrightarrow> a * 2 ^ 126 < 2 ^ Suc (binade k a)"
proof (induction k)
  case 0 then show ?case by simp
next
  case (Suc k)
  show ?case
  proof (cases "2 ^ Suc k \<le> a * 2 ^ 126")
    case True with Suc.prems show ?thesis by simp
  next
    case False
    show ?thesis
    proof (cases "binade k a < k")
      case True with Suc.IH False show ?thesis by simp
    next
      case F2: False
      with binade_le [of k a] have "binade k a = k" by simp
      with False show ?thesis by simp
    qed
  qed
qed

lemma binade_mono: "a \<le> b \<Longrightarrow> binade k a \<le> binade k b"
proof (induction k)
  case 0 then show ?case by simp
next
  case (Suc k)
  then show ?case using binade_le [of k a] by (auto simp: mult_right_mono le_SucI)
qed

lemma rhe_bounds: "\<lfloor>x\<rfloor> \<le> rhe x \<and> rhe x \<le> \<lfloor>x\<rfloor> + 1"
  by (simp add: rhe_def Let_def)

lemma rhe_mono: "x \<le> y \<Longrightarrow> rhe x \<le> rhe y"
proof -
  assume le: "x \<le> y"
  then have fl: "\<lfloor>x\<rfloor> \<le> \<lfloor>y\<rfloor>" by (rule floor_mono)
  show ?thesis
  proof (cases "\<lfloor>x\<rfloor> = \<lfloor>y\<rfloor>")
    case True
    with le show ?thesis by (auto simp: rhe_def Let_def)
  next
    case False
    with fl have "\<lfloor>x\<rfloor> + 1 \<le> \<lfloor>y\<rfloor>" by simp
    with rhe_bounds [of x] rhe_bounds [of y] show ?thesis by linarith
  qed
qed

lemma rhe_neg: "rhe (- x) = - rhe x"
proof (cases "x = of_int \<lfloor>x\<rfloor>")
  case True
  then obtain k where "x = of_int k" ..
  then show ?thesis by (simp add: rhe_def flip: of_int_minus)
next
  case False
  then have fl: "\<lfloor>- x\<rfloor> = - \<lfloor>x\<rfloor> - 1"
    by (metis ceiling_altdef ceiling_def add_diff_cancel_right' minus_diff_eq diff_minus_eq_add minus_add_cancel uminus_add_conv_diff)
  show ?thesis
    by (auto simp: rhe_def Let_def fl)
qed

lemma rfin_neg: "rfin (- x) = - rfin x"
  by (simp add: rfin_def ulp_neg rhe_neg)

text \<open>In binade \<open>E\<close> the scaled magnitude lies between \<open>2 ^ 23\<close> and \<open>2 ^ 24\<close>.\<close>

lemma scaled_upper:
  assumes "0 \<le> x" "binade 253 x < 253"
  shows "x / ulp x < 2 ^ 24"
proof -
  define E where "E = binade 253 x"
  from assms have ax: "\<bar>x\<bar> = x" by simp
  from assms(2) have "x * 2 ^ 126 < 2 ^ Suc E" unfolding E_def by (rule binade_upper)
  then have "x * 2 ^ 126 * 2 ^ 23 < 2 ^ Suc E * 2 ^ 23" by simp
  then have "x * 2 ^ 149 < 2 ^ 24 * 2 ^ E" by simp
  then have "x * 2 ^ 149 / 2 ^ E < 2 ^ 24" by (simp add: pos_divide_less_eq)
  moreover have "x / ulp x = x * 2 ^ 149 / 2 ^ E" by (simp add: ulp_def ax E_def)
  ultimately show ?thesis by simp
qed

lemma scaled_lower:
  assumes "0 \<le> x" "binade 253 x \<noteq> 0"
  shows "2 ^ 23 \<le> x / ulp x"
proof -
  define E where "E = binade 253 x"
  from assms have ax: "\<bar>x\<bar> = x" by simp
  from assms(2) have "2 ^ E \<le> x * 2 ^ 126" unfolding E_def by (rule binade_lower)
  then have "2 ^ E * 2 ^ 23 \<le> x * 2 ^ 126 * 2 ^ 23" by simp
  then have "2 ^ 23 * 2 ^ E \<le> x * 2 ^ 149" by simp
  then have "2 ^ 23 \<le> x * 2 ^ 149 / 2 ^ E" by (simp add: pos_le_divide_eq)
  moreover have "x / ulp x = x * 2 ^ 149 / 2 ^ E" by (simp add: ulp_def ax E_def)
  ultimately show ?thesis by simp
qed

lemma rfin_mono_pos:
  assumes "0 \<le> x" "x \<le> y"
  shows "rfin x \<le> rfin y"
proof -
  define E where "E = binade 253 x"
  define F where "F = binade 253 y"
  from assms have y0: "0 \<le> y" by simp
  from assms have EF: "E \<le> F" unfolding E_def F_def by (rule_tac binade_mono)
  have ux: "ulp x = 2 ^ E / 2 ^ 149" and uy: "ulp y = 2 ^ F / 2 ^ 149"
    using assms y0 by (simp_all add: ulp_def E_def F_def)
  show ?thesis
  proof (cases "E = F")
    case True
    then have u: "ulp y = ulp x" by (simp add: ux uy)
    from assms(2) ulp_pos [of x] have "x / ulp x \<le> y / ulp x" by (simp add: divide_right_mono)
    then have "rhe (x / ulp x) \<le> rhe (y / ulp x)" by (rule rhe_mono)
    then have "of_int (rhe (x / ulp x)) * ulp x \<le> of_int (rhe (y / ulp x)) * ulp x"
      using ulp_pos [of x] by (simp add: mult_right_mono)
    then show ?thesis by (simp add: rfin_def u)
  next
    case False
    with EF have lt: "E < F" by simp
    have "F \<le> 253" unfolding F_def by (rule binade_le)
    with lt have "binade 253 x < 253" by (simp add: E_def)
    with assms(1) have "x / ulp x < 2 ^ 24" by (rule scaled_upper)
    then have "rhe (x / ulp x) \<le> rhe (of_int (2 ^ 24))" by (intro rhe_mono) simp
    then have "rhe (x / ulp x) \<le> 2 ^ 24" by (simp only: rhe_of_int)
    then have "(of_int (rhe (x / ulp x)) :: real) \<le> 2 ^ 24"
      by (metis of_int_le_numeral_power_cancel_iff)
    then have "rfin x \<le> 2 ^ 24 * ulp x"
      using ulp_pos [of x] by (simp add: rfin_def mult_right_mono)
    also have "\<dots> = 2 ^ Suc E / 2 ^ 126" by (simp add: ux)
    also have "\<dots> \<le> 2 ^ F / 2 ^ 126"
      using lt by (intro divide_right_mono power_increasing) simp_all
    also have "\<dots> = 2 ^ 23 * ulp y" by (simp add: uy)
    also have "\<dots> \<le> rfin y"
    proof -
      from lt have "binade 253 y \<noteq> 0" by (simp add: F_def)
      with y0 have "2 ^ 23 \<le> y / ulp y" by (rule scaled_lower)
      then have "rhe (of_int (2 ^ 23)) \<le> rhe (y / ulp y)" by (intro rhe_mono) simp
      then have "2 ^ 23 \<le> rhe (y / ulp y)" by (simp only: rhe_of_int)
      then have "(2 ^ 23 :: real) \<le> of_int (rhe (y / ulp y))"
        by (metis numeral_power_le_of_int_cancel_iff)
      then show ?thesis using ulp_pos [of y] by (simp add: rfin_def mult_right_mono)
    qed
    finally show ?thesis .
  qed
qed

lemma rfin_mono: "x \<le> y \<Longrightarrow> rfin x \<le> rfin y"
proof -
  assume le: "x \<le> y"
  consider "0 \<le> x" | "y \<le> 0" | "x < 0" "0 < y" by linarith
  then show ?thesis
  proof cases
    case 1
    then show ?thesis using le by (rule rfin_mono_pos)
  next
    case 2
    with le have "0 \<le> - y" "- y \<le> - x" by simp_all
    then have "rfin (- y) \<le> rfin (- x)" by (rule rfin_mono_pos)
    then show ?thesis by (simp add: rfin_neg)
  next
    case 3
    then have "0 \<le> rfin (- x)" "0 \<le> rfin y" by (simp_all add: rfin_nonneg)
    then show ?thesis by (simp add: rfin_neg)
  qed
qed

lemma rnd_mono: "x \<le> y \<Longrightarrow> fle (rnd x) (rnd y)"
  using rfin_mono [of x y] by (auto simp: rnd_def Let_def fle_def)

lemma rhe_abs_le:
  assumes "\<bar>x\<bar> \<le> of_int k"
  shows "\<bar>rhe x\<bar> \<le> k"
proof -
  from assms have "- of_int k \<le> x" "x \<le> of_int k" by linarith+
  then have "rhe (of_int (- k)) \<le> rhe x" "rhe x \<le> rhe (of_int k)"
    by (simp_all add: rhe_mono)
  then have "- k \<le> rhe x" "rhe x \<le> k" by (simp_all only: rhe_of_int)
  then show ?thesis by linarith
qed

text \<open>The rounding of a real is a single-precision value: rounding it again changes nothing.\<close>

lemma rfin_rfin:
  assumes "\<bar>rfin x\<bar> < 2 ^ 128"
  shows "rfin (rfin x) = rfin x"
proof -
  define E where "E = binade 253 \<bar>x\<bar>"
  define k where "k = rhe (x / ulp x)"
  have u: "ulp x = 2 ^ E / 2 ^ 149" by (simp add: ulp_def E_def)
  have r: "rfin x = of_int k * 2 ^ E / 2 ^ 149" by (simp add: rfin_def k_def u)
  have E253: "E \<le> 253" unfolding E_def by (rule binade_le)
  have k24: "\<bar>k\<bar> \<le> 2 ^ 24"
  proof (cases "E < 253")
    case True
    then have "\<bar>x\<bar> / ulp \<bar>x\<bar> < 2 ^ 24" unfolding E_def by (intro scaled_upper) simp_all
    then have "\<bar>x / ulp x\<bar> \<le> of_int (2 ^ 24)"
      using ulp_pos [of x] by (simp add: ulp_def)
    then show ?thesis unfolding k_def by (rule rhe_abs_le)
  next
    case False
    with E253 have E: "E = 253" by simp
    from assms have "\<bar>of_int k :: real\<bar> * (2 ^ 253 / 2 ^ 149) < 2 ^ 128"
      by (simp add: r E abs_mult)
    then have "\<bar>of_int k :: real\<bar> * 2 ^ 104 < 2 ^ 24 * 2 ^ 104" by simp
    then have "\<bar>of_int k :: real\<bar> < 2 ^ 24" by (simp only: mult_less_cancel_right) simp
    then have "\<bar>k\<bar> < 2 ^ 24" by (metis of_int_abs of_int_less_numeral_power_cancel_iff)
    then show ?thesis by simp
  qed
  show ?thesis
  proof (cases "\<bar>k\<bar> < 2 ^ 24")
    case True
    then show ?thesis unfolding r by (rule rfin_exact)
  next
    case False
    with k24 have "\<bar>k\<bar> = 2 ^ 24" by simp
    then consider "k = 2 ^ 24" | "k = - (2 ^ 24)" by linarith
    then show ?thesis
    proof cases
      case 1
      have "rfin (of_int (2 ^ 23) * 2 ^ Suc E / 2 ^ 149) = of_int (2 ^ 23) * 2 ^ Suc E / 2 ^ 149"
        by (rule rfin_exact) simp
      moreover have "rfin x = of_int (2 ^ 23) * 2 ^ Suc E / 2 ^ 149" by (simp add: r 1)
      ultimately show ?thesis by (simp only:)
    next
      case 2
      have "rfin (of_int (- (2 ^ 23)) * 2 ^ Suc E / 2 ^ 149) = of_int (- (2 ^ 23)) * 2 ^ Suc E / 2 ^ 149"
        by (rule rfin_exact) simp
      moreover have "rfin x = of_int (- (2 ^ 23)) * 2 ^ Suc E / 2 ^ 149" by (simp add: r 2)
      ultimately show ?thesis by (simp only:)
    qed
  qed
qed

lemma rnd_rnd: "rnd x = Fin r \<Longrightarrow> rnd r = Fin r"
proof -
  assume a: "rnd x = Fin r"
  then have r: "r = rfin x" and b: "\<bar>rfin x\<bar> < 2 ^ 128"
    by (auto simp: rnd_def Let_def split: if_splits)
  from b have "rfin (rfin x) = rfin x" by (rule rfin_rfin)
  moreover from b have "\<not> 2 ^ 128 \<le> rfin x" "\<not> rfin x \<le> - (2 ^ 128)" by linarith+
  ultimately show ?thesis by (simp only: rnd_def Let_def r if_False)
qed

lemma fin_nonneg_iff: "fin_nonneg a \<longleftrightarrow> (\<exists>x\<ge>0. a = Fin x)"
  by (cases a) auto

lemma fin_nonneg_nonneg: "fin_nonneg a \<Longrightarrow> nonneg a"
  by (cases a) auto

lemma fle_Fin: "fle (Fin x) (Fin y) \<longleftrightarrow> x \<le> y"
  by (auto simp: fle_def)

text \<open>A rounding between two single-precision values lies between them.\<close>

lemma rnd_between:
  assumes "a \<le> x" "x \<le> b" "rnd a = Fin a" "rnd b = Fin b"
  shows "\<exists>r. rnd x = Fin r \<and> a \<le> r \<and> r \<le> b"
proof -
  from rnd_mono [OF assms(1)] rnd_mono [OF assms(2)] assms(3,4)
  have "fle (Fin a) (rnd x)" "fle (rnd x) (Fin b)" by simp_all
  then show ?thesis by (cases "rnd x") (auto simp: fle_def)
qed

lemma of_unsigned_fin:
  assumes "n < 2 ^ 32"
  shows "\<exists>m\<ge>0. of_unsigned n = Fin m"
proof -
  have "rnd (of_int 1 * 2 ^ 32) = Fin (of_int 1 * 2 ^ 32)" by (rule rnd_int) simp_all
  then have b: "rnd (2 ^ 32) = Fin (2 ^ 32)" by simp
  from assms have "real n < real (2 ^ 32)" by (simp only: of_nat_less_iff)
  then have "(0::real) \<le> of_nat n" "of_nat n \<le> (2 ^ 32 :: real)" by simp_all
  from rnd_between [OF this rnd_0 b] show ?thesis by (auto simp: of_unsigned_def)
qed

lemma tierCapacity_nonneg:
  assumes "fin_nonneg (capacity (ts ! t))" "c ! t < 2 ^ 32"
  shows "nonneg (tierCapacity ts c t)"
proof -
  from assms(1) obtain x where x: "capacity (ts ! t) = Fin x" "0 \<le> x"
    by (auto simp: fin_nonneg_iff)
  from of_unsigned_fin [OF assms(2)] obtain m where m: "of_unsigned (c ! t) = Fin m" "0 \<le> m"
    by blast
  from x m show ?thesis by (simp add: tierCapacity_def rnd_nonneg)
qed

text \<open>The order of the comparisons.\<close>

lemma fle_trans: "fle a b \<Longrightarrow> fle b c \<Longrightarrow> fle a c"
  by (cases a; cases b; cases c) (auto simp: fle_def)

lemma fle_flt_trans: "fle a b \<Longrightarrow> flt b c \<Longrightarrow> flt a c"
  by (cases a; cases b; cases c) (auto simp: fle_def)

lemma not_flt_fle: "nonneg a \<Longrightarrow> nonneg b \<Longrightarrow> \<not> flt b a \<Longrightarrow> fle a b"
  by (cases a; cases b) (auto simp: fle_def)

lemma fle_refl: "nonneg a \<Longrightarrow> fle a a"
  by (cases a) (auto simp: fle_def)

lemma f32_trichotomy: "a \<noteq> NaN \<Longrightarrow> b \<noteq> NaN \<Longrightarrow> flt a b \<or> feq a b \<or> flt b a"
  by (cases a; cases b) auto

lemma feq_sym: "feq a b \<Longrightarrow> feq b a"
  by (cases a; cases b) auto

lemma feq_refl: "a \<noteq> NaN \<Longrightarrow> feq a a"
  by (cases a) auto

lemma flt_not_NaN: "flt a b \<Longrightarrow> a \<noteq> NaN \<and> b \<noteq> NaN"
  by (cases a; cases b) auto

lemma flt_trans: "flt a b \<Longrightarrow> flt b c \<Longrightarrow> flt a c"
  by (cases a; cases b; cases c) auto

lemma flt_feq_trans: "flt a b \<Longrightarrow> feq b c \<Longrightarrow> flt a c"
  by (cases a; cases b; cases c) auto

lemma feq_flt_trans: "feq a b \<Longrightarrow> flt b c \<Longrightarrow> flt a c"
  by (cases a; cases b; cases c) auto

lemma feq_trans: "feq a b \<Longrightarrow> feq b c \<Longrightarrow> feq a c"
  by (cases a; cases b; cases c) auto

text \<open>The error of a rounding is at most half the grid spacing.\<close>

lemma rhe_err: "\<bar>of_int (rhe y) - y\<bar> \<le> 1 / 2"
proof -
  have "of_int \<lfloor>y\<rfloor> \<le> y" "y < of_int \<lfloor>y\<rfloor> + 1" by linarith+
  then show ?thesis by (auto simp: rhe_def Let_def abs_le_iff)
qed

lemma rfin_err: "\<bar>rfin x - x\<bar> \<le> ulp x / 2"
proof -
  have "rfin x - x = (of_int (rhe (x / ulp x)) - x / ulp x) * ulp x"
    using ulp_pos [of x] by (simp add: rfin_def algebra_simps)
  then have "\<bar>rfin x - x\<bar> = \<bar>of_int (rhe (x / ulp x)) - x / ulp x\<bar> * ulp x"
    using ulp_pos [of x] by (simp add: abs_mult)
  also have "\<dots> \<le> 1 / 2 * ulp x"
    using ulp_pos [of x] rhe_err [of "x / ulp x"] by (intro mult_right_mono) simp_all
  finally show ?thesis by simp
qed

lemma rnd_err: "rnd x = Fin z \<Longrightarrow> \<bar>z - x\<bar> \<le> ulp x / 2"
  using rfin_err [of x] by (auto simp: rnd_def Let_def split: if_splits)

lemma fadd_err: "a = Fin x \<Longrightarrow> b = Fin y \<Longrightarrow> fadd a b = Fin z \<Longrightarrow> \<bar>z - (x + y)\<bar> \<le> ulp (x + y) / 2"
  using rnd_err [of "x + y" z] by simp

section \<open>The catalogue of the source, evaluated\<close>

lemma GB_val: "GB = Fin (2 ^ 30)"
  using rnd_int [of 1 30] by (simp add: GB_def MB_def)

lemma TB_val: "TB = Fin (2 ^ 40)"
  using rnd_int [of 1 40] by (simp add: TB_def GB_val)

lemma techs_length [simp]: "length techs = 4"
  by (simp add: techs_def)

lemma techs_nonempty [simp]: "techs \<noteq> []"
  by (simp add: techs_def)

lemma techs_capacity:
  "capacity (techs ! 0) = Fin (2 ^ 36)" "capacity (techs ! Suc 0) = Fin (2 ^ 38)"
  "capacity (techs ! 2) = Fin (2 ^ 40)" "capacity (techs ! 3) = Fin (2 ^ 42)"
  using rnd_int [of 1 36] rnd_int [of 1 38] rnd_int [of 1 40] rnd_int [of 1 42]
  by (simp_all add: techs_def GB_val TB_val)

lemma techs_max:
  "max_t (techs ! 0) = 16" "max_t (techs ! Suc 0) = 8" "max_t (techs ! 2) = 16" "max_t (techs ! 3) = 16"
  by (simp_all add: techs_def)

lemma techs_cost:
  "cost (techs ! 0) = Fin 500" "cost (techs ! Suc 0) = Fin 500"
  "cost (techs ! 2) = Fin 500" "cost (techs ! 3) = Fin 200"
  by (simp_all add: techs_def)

lemma tierCapacity_techs:
  assumes "c ! 0 < 2 ^ 24" "c ! Suc 0 < 2 ^ 24" "c ! 2 < 2 ^ 24" "c ! 3 < 2 ^ 24"
  shows "tierCapacity techs c 0 = Fin (of_nat (c ! 0) * 2 ^ 36)"
    and "tierCapacity techs c (Suc 0) = Fin (of_nat (c ! Suc 0) * 2 ^ 38)"
    and "tierCapacity techs c 2 = Fin (of_nat (c ! 2) * 2 ^ 40)"
    and "tierCapacity techs c 3 = Fin (of_nat (c ! 3) * 2 ^ 42)"
  using assms rnd_int [of "int (c ! 0)" 36] rnd_int [of "int (c ! Suc 0)" 38]
    rnd_int [of "int (c ! 2)" 40] rnd_int [of "int (c ! 3)" 42]
  by (simp_all add: tierCapacity_def techs_capacity of_unsigned_small)

lemma rnd_2_36: "rnd 68719476736 = Fin 68719476736"
  using rnd_int [of 1 36] by simp

lemma rnd_2_36_1: "rnd 68719476737 = Fin 68719476736"
proof -
  have "rfin 68719476737 = of_int (rhe (68719476737 / (2 ^ 162 / 2 ^ 149))) * (2 ^ 162 / 2 ^ 149)"
    by (rule rfin_binade) simp_all
  also have "\<dots> = 68719476736" by (simp add: rhe_def)
  finally show ?thesis by (simp add: rnd_def)
qed

lemma tierCapacity_techs_Suc:
  assumes "c ! 0 < 2 ^ 24" "c ! Suc 0 < 2 ^ 24" "c ! 2 < 2 ^ 24" "c ! 3 < 2 ^ 24"
  shows "tierCapacity techs c (Suc (Suc 0)) = Fin (of_nat (c ! 2) * 2 ^ 40)"
    and "tierCapacity techs c (Suc (Suc (Suc 0))) = Fin (of_nat (c ! 3) * 2 ^ 42)"
  using tierCapacity_techs(3,4) [OF assms] by (simp_all add: numeral_2_eq_2 numeral_3_eq_3)

lemma rnd_half: "rnd (1 / 2) = Fin (1 / 2)"
  using rnd_grid [of 1 148] by simp

lemma rnd_quarter: "rnd (1 / 4) = Fin (1 / 4)"
  using rnd_grid [of 1 147] by simp

section \<open>The feasibility check and its specification\<close>

lemma indexes_nonempty: "ts \<noteq> [] \<Longrightarrow> c ! 0 \<noteq> 0 \<Longrightarrow> indexes ts c \<noteq> []"
proof -
  assume "ts \<noteq> []" "c ! 0 \<noteq> 0"
  then have "0 \<in> set (indexes ts c)" by (simp add: indexes_def)
  then show ?thesis by auto
qed

text \<open>
  For a non-empty catalogue and a configuration with an entry for every tier, \<open>isValid\<close>
  returns a boolean and never reads out of range: the conjunction of its three checks, in
  single precision.
\<close>

lemma isValid_closed:
  assumes "ts \<noteq> []" and "length ts \<le> length c"
  shows "isValid ts c w =
           Inr (c ! 0 \<noteq> 0 \<and> inclusive ts c (indexes ts c)
                \<and> \<not> flt (tierCapacity ts c (last (indexes ts c))) (sumSpaceNeeded w))"
proof -
  from assms have ne: "c \<noteq> []" by auto
  show ?thesis
  proof (cases "c ! 0 = 0")
    case True
    with ne show ?thesis by (simp add: isValid_def)
  next
    case False
    with assms have "indexes ts c \<noteq> []" by (simp add: indexes_nonempty)
    with False ne assms(2) show ?thesis
      by (simp add: isValid_def)
  qed
qed

lemma isValid_total:
  assumes "ts \<noteq> []" and "length ts \<le> length c"
  shows "\<exists>b. isValid ts c w = Inr b"
  using isValid_closed [OF assms] by blast

text \<open>
  Where the arithmetic of the check is exact, the check is the specification's: if the
  single-precision product of every populated tier is the product and the
  single-precision sum of the sizes is the sum, \<open>isValid\<close> returns \<open>feasible\<close>.
\<close>

lemma inclusive_exact:
  assumes "\<forall>t\<in>set p. tierCapacity ts c t = Fin (totalCapacity ts c t)"
  shows "inclusive ts c p \<longleftrightarrow>
           list_all (\<lambda>(a, b). \<not> totalCapacity ts c b < totalCapacity ts c a) (zip p (tl p))"
  using assms by (induction ts c p rule: inclusive.induct) auto

lemma isValid_exact:
  assumes "ts \<noteq> []" and "length ts \<le> length c"
    and caps: "\<forall>t\<in>set (indexes ts c). tierCapacity ts c t = Fin (totalCapacity ts c t)"
    and sum: "sumSpaceNeeded w = Fin (sizeSum w)"
  shows "isValid ts c w = Inr (feasible ts c w)"
proof (cases "c ! 0 = 0")
  case True
  with assms(1,2) show ?thesis by (simp add: isValid_closed feasible_def)
next
  case False
  with assms(1) have "indexes ts c \<noteq> []" by (rule indexes_nonempty)
  then have "last (indexes ts c) \<in> set (indexes ts c)" by simp
  with caps have l: "tierCapacity ts c (last (indexes ts c))
                       = Fin (totalCapacity ts c (last (indexes ts c)))" by blast
  from inclusive_exact [OF caps] l sum assms(1,2) show ?thesis
    by (simp add: isValid_closed feasible_def indexes_def Let_def)
qed

text \<open>
  On the catalogue of the source every product is exact for counts below \<open>2 ^ 24\<close>, so
  that there the check is the specification's whenever the sum of the sizes is exact.
\<close>

lemma techs_capacity_exact:
  assumes "c ! 0 < 2 ^ 24" "c ! Suc 0 < 2 ^ 24" "c ! 2 < 2 ^ 24" "c ! 3 < 2 ^ 24"
  shows "\<forall>t\<in>set (indexes techs c). tierCapacity techs c t = Fin (totalCapacity techs c t)"
proof -
  have "set (indexes techs c) \<subseteq> {0, Suc 0, 2, 3}"
    by (auto simp: indexes_def)
  moreover have "tierCapacity techs c 0 = Fin (totalCapacity techs c 0)"
    "tierCapacity techs c (Suc 0) = Fin (totalCapacity techs c (Suc 0))"
    "tierCapacity techs c 2 = Fin (totalCapacity techs c 2)"
    "tierCapacity techs c 3 = Fin (totalCapacity techs c 3)"
    by (simp_all add: tierCapacity_techs [OF assms] totalCapacity_def techs_capacity)
  ultimately show ?thesis by auto
qed

lemma isValid_techs_exact:
  assumes "4 \<le> length c" "c ! 0 < 2 ^ 24" "c ! Suc 0 < 2 ^ 24" "c ! 2 < 2 ^ 24" "c ! 3 < 2 ^ 24"
    and "sumSpaceNeeded w = Fin (sizeSum w)"
  shows "isValid techs c w = Inr (feasible techs c w)"
  using assms(1) techs_capacity_exact [OF assms(2-5)] assms(6)
  by (intro isValid_exact) simp_all

lemma isValid_techs_1100:
  "isValid techs [1, 1, 0, 0] [\<lparr>fraction = Fin (1 / 2), size_g = Fin (2 ^ 36)\<rparr>] = Inr True"
  by (simp add: isValid_def indexes_def upt_rec tierCapacity_techs sumSpaceNeeded_def rnd_2_36)


section \<open>The simulator keeps no state\<close>

lemma placeGroup_length:
  "placeGroup ts c g s = Inr s' \<Longrightarrow> length (fractionsOut s') = length (fractionsOut s)"
proof (induction ts c g s rule: placeGroup.induct)
  case (1 ts c g s)
  show ?case
  proof (cases "tech s < length (fractionsOut s) \<and> fgt (size_g g) (techCapacity s)
                \<and> tech s + 1 < length c \<and> tech s + 1 < length ts")
    case False
    with "1.prems" show ?thesis
      by (auto simp: placeGroup.simps [of ts c g s] Let_def split: if_splits)
  next
    case True
    with "1.prems" have
      "length (fractionsOut s') = length (fractionsOut
         \<lparr>fractionsOut = (fractionsOut s)[tech s := fadd (fractionsOut s ! tech s)
              (fmul (fdiv (techCapacity s) (size_g g)) (fraction g))],
          tech = tech s + 1, techCapacity = tierCapacity ts c (tech s + 1)\<rparr>)"
      by (intro "1.IH" [OF _ _ refl refl refl refl])
         (simp_all add: placeGroup.simps [of ts c g s] Let_def)
    then show ?thesis by simp
  qed
qed

lemma placeGroups_length:
  "placeGroups ts c w s = Inr s' \<Longrightarrow> length (fractionsOut s') = length (fractionsOut s)"
proof (induction w arbitrary: s)
  case Nil then show ?case by simp
next
  case (Cons g w)
  then show ?case by (auto split: sum.splits dest: placeGroup_length)
qed

lemma computeAccessFractions_buffer:
  "length b' = length b \<Longrightarrow> computeAccessFractions ts w c b' = computeAccessFractions ts w c b"
  by (simp add: computeAccessFractions_def map_replicate_const)

lemma computeAccessFractions_result:
  assumes "computeAccessFractions ts w c b = Inr (w', c', out)"
  shows "w' = w" "c' = c" "length out = length b"
  using assms
  by (auto simp: computeAccessFractions_def split: if_splits sum.splits dest: placeGroups_length)

lemma computeAccessFractions_techs_1100:
  "computeAccessFractions techs [\<lparr>fraction = Fin (1 / 2), size_g = Fin (2 ^ 37)\<rparr>] [1, 1, 0, 0]
      [Fin 7, NaN, PInf, Fin 0]
     = Inr ([\<lparr>fraction = Fin (1 / 2), size_g = Fin (2 ^ 37)\<rparr>], [1, 1, 0, 0],
          [Fin (1 / 4), Fin (1 / 4), Fin 0, Fin 0])"
  by (simp add: computeAccessFractions_def placeGroup.simps tierCapacity_techs tierCapacity_techs_Suc
        fgt_def Let_def rnd_half rnd_quarter fsub_def)

text \<open>
  Claim C9. The result of \<open>computeAccessFractions\<close> does not depend on what the output
  buffer held before the call, only on its length. When the call returns, the workload
  and the configuration are what they were, and a second call on the buffer the first one
  filled returns the same fractions.
\<close>

theorem computeAccessFractions_stateless:
  "(length b' = length b \<longrightarrow> computeAccessFractions ts w c b' = computeAccessFractions ts w c b)
   \<and> (computeAccessFractions ts w c b = Inr (w', c', out) \<longrightarrow>
        w' = w \<and> c' = c \<and> computeAccessFractions ts w' c' out = Inr (w', c', out))"
proof (intro conjI impI)
  assume "length b' = length b"
  then show "computeAccessFractions ts w c b' = computeAccessFractions ts w c b"
    by (rule computeAccessFractions_buffer)
next
  assume r: "computeAccessFractions ts w c b = Inr (w', c', out)"
  then show "w' = w" by (rule computeAccessFractions_result)
  from r show "c' = c" by (rule computeAccessFractions_result)
  from r have "length out = length b" by (rule computeAccessFractions_result)
  then have "computeAccessFractions ts w c out = computeAccessFractions ts w c b"
    by (rule computeAccessFractions_buffer)
  with r \<open>w' = w\<close> \<open>c' = c\<close> show "computeAccessFractions ts w' c' out = Inr (w', c', out)" by simp
qed

theorem computeAccessFractions_stateless_witness:
  "length [Fin 0, Fin 0, Fin 0, Fin 0] = length [Fin 7, NaN, PInf, Fin 0]
   \<and> computeAccessFractions techs [\<lparr>fraction = Fin (1 / 2), size_g = Fin (2 ^ 37)\<rparr>] [1, 1, 0, 0]
        [Fin 0, Fin 0, Fin 0, Fin 0]
     = computeAccessFractions techs [\<lparr>fraction = Fin (1 / 2), size_g = Fin (2 ^ 37)\<rparr>] [1, 1, 0, 0]
        [Fin 7, NaN, PInf, Fin 0]
   \<and> computeAccessFractions techs [\<lparr>fraction = Fin (1 / 2), size_g = Fin (2 ^ 37)\<rparr>] [1, 1, 0, 0]
        [Fin 7, NaN, PInf, Fin 0]
     = Inr ([\<lparr>fraction = Fin (1 / 2), size_g = Fin (2 ^ 37)\<rparr>], [1, 1, 0, 0],
            [Fin (1 / 4), Fin (1 / 4), Fin 0, Fin 0])
   \<and> computeAccessFractions techs [\<lparr>fraction = Fin (1 / 2), size_g = Fin (2 ^ 37)\<rparr>] [1, 1, 0, 0]
        [Fin (1 / 4), Fin (1 / 4), Fin 0, Fin 0]
     = Inr ([\<lparr>fraction = Fin (1 / 2), size_g = Fin (2 ^ 37)\<rparr>], [1, 1, 0, 0],
            [Fin (1 / 4), Fin (1 / 4), Fin 0, Fin 0])"
  using computeAccessFractions_stateless
    [of "[Fin 0, Fin 0, Fin 0, Fin 0]" "[Fin 7, NaN, PInf, Fin 0]" techs
        "[\<lparr>fraction = Fin (1 / 2), size_g = Fin (2 ^ 37)\<rparr>]" "[1, 1, 0, 0]"
        "[\<lparr>fraction = Fin (1 / 2), size_g = Fin (2 ^ 37)\<rparr>]" "[1, 1, 0, 0]"
        "[Fin (1 / 4), Fin (1 / 4), Fin 0, Fin 0]"]
    computeAccessFractions_techs_1100
  by simp

section \<open>Costs are not negative\<close>

lemma cost_loop_nonneg:
  "\<forall>i\<in>set is. nonneg (cost (ts ! i)) \<Longrightarrow> nonneg a \<or> a = NaN \<Longrightarrow>
     nonneg (foldl (\<lambda>c i. fadd c (fmul (of_unsigned (cfg ! i)) (cost (ts ! i)))) a is)
     \<or> foldl (\<lambda>c i. fadd c (fmul (of_unsigned (cfg ! i)) (cost (ts ! i)))) a is = NaN"
proof (induction "is" arbitrary: a)
  case Nil then show ?case by simp
next
  case (Cons i "is")
  have "nonneg (fmul (of_unsigned (cfg ! i)) (cost (ts ! i))) \<or> fmul (of_unsigned (cfg ! i)) (cost (ts ! i)) = NaN"
    using Cons.prems(1) by (intro fmul_nonneg of_unsigned_nonneg) simp
  with Cons.prems(2) have
    "nonneg (fadd a (fmul (of_unsigned (cfg ! i)) (cost (ts ! i))))
     \<or> fadd a (fmul (of_unsigned (cfg ! i)) (cost (ts ! i))) = NaN"
    by (auto simp: fadd_nonneg) (cases a; simp)+
  with Cons.IH [of "fadd a (fmul (of_unsigned (cfg ! i)) (cost (ts ! i)))"] Cons.prems(1)
  show ?case by simp
qed

lemma configCost_not_negative:
  assumes "\<forall>t\<in>set ts. nonneg (cost t)" "configCost ts c = Inr cst"
  shows "\<not> flt cst (Fin 0)"
proof -
  from assms(1) have "\<forall>i\<in>set [0..<length ts]. nonneg (cost (ts ! i))" by simp
  from cost_loop_nonneg [OF this, of "Fin 0" c] assms(2) have "nonneg cst \<or> cst = NaN"
    by (auto simp: configCost_def split: if_splits)
  then show ?thesis by (rule not_flt_zero)
qed

section \<open>The search visits every configuration once, in order\<close>

lemma leaf_config: "leaf ts w l opt st = Inr st' \<Longrightarrow> config st' = config st"
  by (auto simp: leaf_def split: sum.splits bool.splits if_splits prod.splits)

lemma enum_config:
  "enumerate' ts w l opt pos st = Inr st' \<Longrightarrow>
     length (config st') = length (config st) \<and> take pos (config st') = take pos (config st)"
  "forCount ts w l opt pos count st = Inr st' \<Longrightarrow>
     length (config st') = length (config st) \<and> take pos (config st') = take pos (config st)"
proof (induction ts w l opt pos st and ts w l opt pos count st arbitrary: st' and st'
       rule: enumerate'_forCount.induct)
  case (1 ts w l opt pos st)
  then show ?case
    by (auto simp: enumerate'.simps [of ts w l opt pos st] leaf_config split: if_splits)
next
  case (2 ts w l opt pos count st)
  show ?case
  proof (cases "pos < length ts \<and> count < max_t (ts ! pos)")
    case False
    with "2.prems" show ?thesis
      by (auto simp: forCount.simps [of ts w l opt pos count st] split: if_splits)
  next
    case True
    then have p: "\<not> \<not> pos < length ts" and cnt: "count < max_t (ts ! pos)" by simp_all
    from True "2.prems" have pl: "pos < length (config st)"
      by (auto simp: forCount.simps [of ts w l opt pos count st] split: if_splits)
    let ?st1 = "st\<lparr>config := (config st)[pos := count]\<rparr>"
    from True pl "2.prems" obtain st2 where
      e: "enumerate' ts w l opt (pos + 1) ?st1 = Inr st2" and
      f: "forCount ts w l opt pos (count + 1) st2 = Inr st'"
      by (auto simp: forCount.simps [of ts w l opt pos count st] split: sum.splits)
    from "2.IH"(1) [OF p cnt pl e] have
      a: "length (config st2) = length (config st)"
         "take (pos + 1) (config st2) = take (pos + 1) ((config st)[pos := count])"
      by simp_all
    from "2.IH"(2) [OF p cnt pl e f] have
      b: "length (config st') = length (config st2)" "take pos (config st') = take pos (config st2)"
      by simp_all
    from a(2) have "take pos (take (pos + 1) (config st2)) = take pos (take (pos + 1) ((config st)[pos := count]))"
      by simp
    then have "take pos (config st2) = take pos (config st)" by (simp add: min_def)
    with a b show ?thesis by simp
  qed
qed

lemma erase_Inl [simp]: "erase (Inl e) = Inl e"
  by (simp add: erase_def)

lemma erase_Inr [simp]: "erase (Inr st) = Inr (st\<lparr>config := []\<rparr>)"
  by (simp add: erase_def)

lemma erase_eq_Inl: "erase r = Inl e \<longleftrightarrow> r = Inl e"
  by (cases r) auto

lemma leaves_append:
  "leaves ts w l opt (xs @ ys) st =
     (case leaves ts w l opt xs st of Inl e \<Rightarrow> Inl e | Inr st' \<Rightarrow> leaves ts w l opt ys st')"
  by (induction xs arbitrary: st) (auto split: sum.splits)

lemma leaves_start:
  "st\<lparr>config := []\<rparr> = st'\<lparr>config := []\<rparr> \<Longrightarrow>
     erase (leaves ts w l opt cs st) = erase (leaves ts w l opt cs st')"
proof (cases cs)
  case Nil
  assume "st\<lparr>config := []\<rparr> = st'\<lparr>config := []\<rparr>"
  with Nil show ?thesis by simp
next
  case (Cons c cs')
  assume e: "st\<lparr>config := []\<rparr> = st'\<lparr>config := []\<rparr>"
  have "st\<lparr>config := c\<rparr> = (st\<lparr>config := []\<rparr>)\<lparr>config := c\<rparr>" by simp
  also have "\<dots> = (st'\<lparr>config := []\<rparr>)\<lparr>config := c\<rparr>" by (simp only: e)
  also have "\<dots> = st'\<lparr>config := c\<rparr>" by simp
  finally show ?thesis using Cons by simp
qed

lemma erase_eqD:
  "erase r = erase r' \<Longrightarrow> r = Inr st \<Longrightarrow> \<exists>st'. r' = Inr st' \<and> st\<lparr>config := []\<rparr> = st'\<lparr>config := []\<rparr>"
  by (cases r') (auto simp: erase_def)

lemma enum_leaves:
  "pos \<le> length ts \<Longrightarrow> length (config st) = length ts \<Longrightarrow>
     erase (enumerate' ts w l opt pos st) =
     erase (leaves ts w l opt (map (\<lambda>suf. take pos (config st) @ suf) (allConfigs (drop pos ts))) st)"
  "pos < length ts \<Longrightarrow> length (config st) = length ts \<Longrightarrow>
     erase (forCount ts w l opt pos count st) =
     erase (leaves ts w l opt
       (concat (map (\<lambda>n. map (\<lambda>suf. take pos (config st) @ n # suf) (allConfigs (drop (Suc pos) ts)))
                    [count..<max_t (ts ! pos)])) st)"
proof (induction ts w l opt pos st and ts w l opt pos count st
       rule: enumerate'_forCount.induct)
  case (1 ts w l opt pos st)
  show ?case
  proof (cases "pos = length ts")
    case True
    then have "enumerate' ts w l opt pos st = leaf ts w l opt st"
      by (subst enumerate'.simps) simp
    moreover from True "1.prems" have
      "map (\<lambda>suf. take pos (config st) @ suf) (allConfigs (drop pos ts)) = [config st]" by simp
    ultimately show ?thesis by (simp split: sum.splits)
  next
    case False
    with "1.prems" have lt: "pos < length ts" by simp
    then have d: "drop pos ts = ts ! pos # drop (Suc pos) ts" by (simp add: Cons_nth_drop_Suc)
    have "map (\<lambda>suf. take pos (config st) @ suf) (allConfigs (drop pos ts)) =
          concat (map (\<lambda>n. map (\<lambda>suf. take pos (config st) @ n # suf) (allConfigs (drop (Suc pos) ts)))
                    [0..<max_t (ts ! pos)])"
      by (simp add: d map_concat comp_def)
    moreover from False lt have "enumerate' ts w l opt pos st = forCount ts w l opt pos 0 st"
      by (simp add: enumerate'.simps [of ts w l opt pos st])
    moreover from False lt have "\<not> length ts < pos" by simp
    note "1.IH" [OF False this lt "1.prems"(2)]
    ultimately show ?thesis by simp
  qed
next
  case (2 ts w l opt pos count st)
  let ?A = "\<lambda>n. map (\<lambda>suf. take pos (config st) @ n # suf) (allConfigs (drop (Suc pos) ts))"
  show ?case
  proof (cases "count < max_t (ts ! pos)")
    case False
    with "2.prems" show ?thesis by (simp add: forCount.simps [of ts w l opt pos count st])
  next
    case True
    with "2.prems" have c: "pos < length ts \<and> count < max_t (ts ! pos)" by simp
    then have p: "\<not> \<not> pos < length ts" and cnt: "count < max_t (ts ! pos)" by simp_all
    from "2.prems" have pl: "pos < length (config st)" by simp
    let ?st1 = "st\<lparr>config := (config st)[pos := count]\<rparr>"
    from True have up: "[count..<max_t (ts ! pos)] = count # [count + 1..<max_t (ts ! pos)]"
      by (simp add: upt_conv_Cons)
    have tk: "take (Suc pos) ((config st)[pos := count]) = take pos (config st) @ [count]"
      using pl by (simp add: take_Suc_conv_app_nth)
    from "2.prems" have "pos + 1 \<le> length ts" "length (config ?st1) = length ts" by simp_all
    from "2.IH"(1) [OF p cnt pl this] have
      "erase (enumerate' ts w l opt (pos + 1) ?st1) = erase (leaves ts w l opt (?A count) ?st1)"
      by (simp add: tk)
    also have "\<dots> = erase (leaves ts w l opt (?A count) st)"
      by (rule leaves_start) simp
    finally have e1: "erase (enumerate' ts w l opt (pos + 1) ?st1) = erase (leaves ts w l opt (?A count) st)" .
    have unf: "forCount ts w l opt pos count st =
        (case enumerate' ts w l opt (pos + 1) ?st1 of Inl e \<Rightarrow> Inl e
         | Inr st' \<Rightarrow> forCount ts w l opt pos (count + 1) st')"
      using c pl by (simp add: forCount.simps [of ts w l opt pos count st])
    show ?thesis
    proof (cases "enumerate' ts w l opt (pos + 1) ?st1")
      case (Inl e)
      with e1 have "leaves ts w l opt (?A count) st = Inl e"
        by (metis erase_Inl erase_eq_Inl)
      with Inl unf show ?thesis by (simp add: up leaves_append)
    next
      case (Inr st2)
      from erase_eqD [OF e1 Inr] obtain st3 where
        l3: "leaves ts w l opt (?A count) st = Inr st3" and
        eq: "st2\<lparr>config := []\<rparr> = st3\<lparr>config := []\<rparr>" by blast
      from enum_config(1) [OF Inr] have
        len: "length (config st2) = length ts" and
        tk2: "take (pos + 1) (config st2) = take (pos + 1) (config ?st1)"
        using "2.prems" by simp_all
      from tk2 have "take pos (take (pos + 1) (config st2)) = take pos (take (pos + 1) (config ?st1))"
        by simp
      then have tk3: "take pos (config st2) = take pos (config st)" by (simp add: min_def)
      from "2.IH"(2) [OF p cnt pl Inr "2.prems"(1) len] have
        "erase (forCount ts w l opt pos (count + 1) st2) =
         erase (leaves ts w l opt (concat (map ?A [count + 1..<max_t (ts ! pos)])) st2)"
        by (simp add: tk3)
      also have "\<dots> = erase (leaves ts w l opt (concat (map ?A [count + 1..<max_t (ts ! pos)])) st3)"
        using eq by (rule leaves_start)
      finally show ?thesis using Inr unf l3 by (simp add: up leaves_append)
    qed
  qed
qed

lemma findBestConfig_leaves:
  "erase (findBestConfig ts w l opt) = erase (leaves ts w l opt (allConfigs ts) (initial ts))"
proof -
  have "findBestConfig ts w l opt = enumerate' ts w l opt 0 (initial ts)"
    by (simp add: findBestConfig_def initial_def)
  moreover have "erase (enumerate' ts w l opt 0 (initial ts)) =
      erase (leaves ts w l opt (map (\<lambda>suf. take 0 (config (initial ts)) @ suf) (allConfigs (drop 0 ts))) (initial ts))"
    by (rule enum_leaves(1)) (simp_all add: initial_def)
  ultimately show ?thesis by simp
qed

lemma allConfigs_bounds:
  "c \<in> set (allConfigs ts) \<Longrightarrow> length c = length ts \<and> (\<forall>t<length ts. c ! t < max_t (ts ! t))"
proof (induction ts arbitrary: c)
  case Nil then show ?case by simp
next
  case (Cons a ts)
  then obtain n c' where c: "c = n # c'" "n < max_t a" "c' \<in> set (allConfigs ts)" by auto
  with Cons.IH [of c'] show ?case by (auto simp: nth_Cons split: nat.splits)
qed

lemma allConfigs_member:
  "length c = length ts \<Longrightarrow> (\<forall>t<length ts. c ! t < max_t (ts ! t)) \<Longrightarrow> c \<in> set (allConfigs ts)"
proof (induction ts arbitrary: c)
  case Nil then show ?case by simp
next
  case (Cons a ts)
  from Cons.prems(1) obtain n c' where c: "c = n # c'" by (cases c) auto
  with Cons.prems have "n < max_t a" "length c' = length ts" "\<forall>t<length ts. c' ! t < max_t (ts ! t)"
    by auto
  with Cons.IH [of c'] c show ?case by auto
qed

lemma leaves_induct:
  assumes "leaves ts w l opt cs st = Inr st'" and "P st"
    and "\<And>c s s'. c \<in> set cs \<Longrightarrow> P s \<Longrightarrow> leaf ts w l opt (s\<lparr>config := c\<rparr>) = Inr s' \<Longrightarrow> P s'"
  shows "P st'"
  using assms
proof (induction cs arbitrary: st)
  case Nil then show ?case by simp
next
  case (Cons c cs)
  from Cons.prems(1) obtain s1 where
    l: "leaf ts w l opt (st\<lparr>config := c\<rparr>) = Inr s1" and r: "leaves ts w l opt cs s1 = Inr st'"
    by (auto split: sum.splits)
  from Cons.prems(3) [OF _ Cons.prems(2) l] have "P s1" by simp
  with r Cons.IH [of s1] Cons.prems(3) show ?case by auto
qed

text \<open>What one leaf evaluation does to the state.\<close>

lemma leaf_cases:
  assumes "leaf ts w l opt st = Inr st'"
  obtains (skip) "\<not> candidate ts w l (config st)" "st' = st"
  | (reject) fr cst time where "candidate ts w l (config st)" "configCost ts (config st) = Inr cst"
      "length fr = length (accessFractions st)"
      "computeAccessFractions ts w (config st) (accessFractions st) = Inr (w, config st, fr)"
      "(if opt then avgTimePerAccess ts fr else avgLatencyPerAccess ts fr) = Inr time"
      "\<not> (flt time (bestTime st) \<or> (feq time (bestTime st) \<and> flt cst (bestCost st)))"
      "st' = st\<lparr>accessFractions := fr\<rparr>"
  | (accept) fr cst time where "candidate ts w l (config st)" "configCost ts (config st) = Inr cst"
      "length fr = length (accessFractions st)"
      "computeAccessFractions ts w (config st) (accessFractions st) = Inr (w, config st, fr)"
      "(if opt then avgTimePerAccess ts fr else avgLatencyPerAccess ts fr) = Inr time"
      "flt time (bestTime st) \<or> (feq time (bestTime st) \<and> flt cst (bestCost st))"
      "st' = st\<lparr>accessFractions := fr, bestTime := time, bestConfig := config st,
                 bestAccessFractions := fr, bestCost := cst\<rparr>"
proof (cases "isValid ts (config st) w")
  case (Inl e)
  with assms show ?thesis by (simp add: leaf_def)
next
  case (Inr b)
  show ?thesis
  proof (cases b)
    case False
    with Inr assms have "st' = st" by (simp add: leaf_def)
    moreover from Inr False have "\<not> candidate ts w l (config st)" by (simp add: candidate_def)
    ultimately show ?thesis by (rule skip [rotated])
  next
    case True
    with Inr have v: "isValid ts (config st) w = Inr True" by simp
    show ?thesis
    proof (cases "configCost ts (config st)")
      case (Inl e)
      with v assms show ?thesis by (simp add: leaf_def)
    next
      case cc: (Inr cst)
      show ?thesis
      proof (cases "flt cst l")
        case False
        with v cc assms have "st' = st" by (simp add: leaf_def)
        moreover from cc False have "\<not> candidate ts w l (config st)" by (simp add: candidate_def)
        ultimately show ?thesis by (rule skip [rotated])
      next
        case lt: True
        with v cc have cand: "candidate ts w l (config st)" by (simp add: candidate_def)
        show ?thesis
        proof (cases "computeAccessFractions ts w (config st) (accessFractions st)")
          case (Inl e)
          with v cc lt assms show ?thesis by (simp add: leaf_def)
        next
          case (Inr r)
          obtain w' c' fr where r: "r = (w', c', fr)" by (cases r) auto
          from Inr r have caf: "computeAccessFractions ts w (config st) (accessFractions st) = Inr (w', c', fr)"
            by simp
          from computeAccessFractions_result [OF caf] have
            eq: "w' = w" "c' = config st" "length fr = length (accessFractions st)" by simp_all
          show ?thesis
          proof (cases "if opt then avgTimePerAccess ts fr else avgLatencyPerAccess ts fr")
            case (Inl e)
            with v cc lt caf assms show ?thesis by (simp add: leaf_def)
          next
            case tm: (Inr time)
            show ?thesis
            proof (cases "flt time (bestTime st) \<or> (feq time (bestTime st) \<and> flt cst (bestCost st))")
              case True
              with v cc lt caf tm assms eq have
                "st' = st\<lparr>accessFractions := fr, bestTime := time, bestConfig := config st,
                           bestAccessFractions := fr, bestCost := cst\<rparr>"
                by (simp add: leaf_def)
              with cand cc eq caf tm True show ?thesis using accept [of cst fr time] by simp
            next
              case False
              with v cc lt caf tm assms have "st' = st\<lparr>accessFractions := fr\<rparr>"
                by (simp add: leaf_def)
              with cand cc eq caf tm False show ?thesis using reject [of cst fr time] by simp
            qed
          qed
        qed
      qed
    qed
  qed
qed

lemma configCost_total: "length ts \<le> length c \<Longrightarrow> \<exists>cst. configCost ts c = Inr cst"
  by (simp add: configCost_def)

lemma leaf_skip:
  assumes "ts \<noteq> []" "length ts \<le> length (config st)" "\<not> candidate ts w l (config st)"
  shows "leaf ts w l opt st = Inr st"
proof -
  from assms(1,2) obtain b where v: "isValid ts (config st) w = Inr b"
    using isValid_total by blast
  from assms(2) obtain cst where c: "configCost ts (config st) = Inr cst"
    using configCost_total by blast
  show ?thesis
  proof (cases b)
    case False
    with v show ?thesis by (simp add: leaf_def)
  next
    case True
    with v c assms(3) have "\<not> flt cst l" by (simp add: candidate_def)
    with v c True show ?thesis by (simp add: leaf_def)
  qed
qed

lemma leaves_no_candidate:
  assumes "ts \<noteq> []" "\<forall>c\<in>set cs. length c = length ts \<and> \<not> candidate ts w l c"
  shows "erase (leaves ts w l opt cs st) = erase (Inr st)"
  using assms(2)
proof (induction cs arbitrary: st)
  case Nil then show ?case by simp
next
  case (Cons c cs)
  have "leaf ts w l opt (st\<lparr>config := c\<rparr>) = Inr (st\<lparr>config := c\<rparr>)"
    using assms(1) Cons.prems by (intro leaf_skip) simp_all
  moreover have "erase (leaves ts w l opt cs (st\<lparr>config := c\<rparr>)) = erase (Inr (st\<lparr>config := c\<rparr>))"
    using Cons.prems by (intro Cons.IH) simp
  ultimately show ?case by simp
qed

lemma findBestConfig_no_candidate:
  assumes "ts \<noteq> []" "\<forall>c\<in>set (allConfigs ts). \<not> candidate ts w l c"
  shows "\<exists>cfg. findBestConfig ts w l opt = Inr ((initial ts)\<lparr>config := cfg\<rparr>)"
proof -
  from assms(2) have "\<forall>c\<in>set (allConfigs ts). length c = length ts \<and> \<not> candidate ts w l c"
    by (simp add: allConfigs_bounds)
  with assms(1) have "erase (leaves ts w l opt (allConfigs ts) (initial ts)) = erase (Inr (initial ts))"
    by (rule leaves_no_candidate)
  then have e: "erase (findBestConfig ts w l opt) = erase (Inr (initial ts))"
    by (simp only: findBestConfig_leaves)
  then obtain r where r: "findBestConfig ts w l opt = Inr r"
    by (cases "findBestConfig ts w l opt") auto
  with e have "r\<lparr>config := []\<rparr> = (initial ts)\<lparr>config := []\<rparr>" by simp
  then have "r = (initial ts)\<lparr>config := config r\<rparr>"
    by (metis search.surjective search.update_convs(1))
  with r show ?thesis by metis
qed

lemma findBestConfig_induct [consumes 1, case_names init step cfg]:
  assumes r: "findBestConfig ts w l opt = Inr r" and init: "P (initial ts)"
    and step: "\<And>c s s'. c \<in> set (allConfigs ts) \<Longrightarrow> P s
                 \<Longrightarrow> leaf ts w l opt (s\<lparr>config := c\<rparr>) = Inr s' \<Longrightarrow> P s'"
    and cfg: "\<And>s x. P s \<Longrightarrow> P (s\<lparr>config := x\<rparr>)"
  shows "P r"
proof -
  have "erase (findBestConfig ts w l opt) = erase (leaves ts w l opt (allConfigs ts) (initial ts))"
    by (rule findBestConfig_leaves)
  from erase_eqD [OF this r] obtain r' where
    l: "leaves ts w l opt (allConfigs ts) (initial ts) = Inr r'" and
    e: "r\<lparr>config := []\<rparr> = r'\<lparr>config := []\<rparr>" by blast
  from l init step have "P r'" by (rule leaves_induct)
  then have "P (r'\<lparr>config := config r\<rparr>)" by (rule cfg)
  moreover from e have "r = r'\<lparr>config := config r\<rparr>"
    by (metis search.surjective search.update_convs(1))
  ultimately show ?thesis by simp
qed

lemma findBestConfig_sound:
  assumes "findBestConfig ts w l opt = Inr r"
  shows "(bestConfig r = replicate (length ts) 0 \<and> bestTime r = FLT_MAX \<and> bestCost r = FLT_MAX)
         \<or> (isValid ts (bestConfig r) w = Inr True
             \<and> configCost ts (bestConfig r) = Inr (bestCost r) \<and> flt (bestCost r) l)"
  using assms
proof (induct rule: findBestConfig_induct)
  case init
  show ?case by (simp add: initial_def)
next
  case (step c s s')
  from step(3) show ?case
  proof (cases rule: leaf_cases)
    case skip
    with step(2) show ?thesis by simp
  next
    case (reject fr cst time)
    with step(2) show ?thesis by simp
  next
    case (accept fr cst time)
    then show ?thesis by (simp add: candidate_def)
  qed
next
  case (cfg s x)
  then show ?case by simp
qed

lemma findBestConfig_in_range:
  assumes "findBestConfig ts w l opt = Inr r"
  shows "bestConfig r = replicate (length ts) 0 \<or> bestConfig r \<in> set (allConfigs ts)"
  using assms
proof (induct rule: findBestConfig_induct)
  case init
  show ?case by (simp add: initial_def)
next
  case (step c s s')
  from step(3) show ?case
  proof (cases rule: leaf_cases)
    case skip
    with step(2) show ?thesis by simp
  next
    case (reject fr cst time)
    with step(2) show ?thesis by simp
  next
    case (accept fr cst time)
    with step(1) show ?thesis by simp
  qed
next
  case (cfg s x)
  then show ?case by simp
qed

section \<open>Two runs of the search\<close>

lemma rnd_milli: "rnd (1 / 1000) = Fin (8589935 / 8589934592)"
proof -
  have "rfin (1 / 1000) = of_int (rhe (1 / 1000 / (2 ^ 116 / 2 ^ 149))) * (2 ^ 116 / 2 ^ 149)"
    by (rule rfin_binade) simp_all
  also have "\<dots> = 8589935 / 8589934592" by (simp add: rhe_def)
  finally show ?thesis by (simp add: rnd_def)
qed

lemma rnd_milli_exact: "rnd (8589935 / 8589934592) = Fin (8589935 / 8589934592)"
  using rnd_grid [of 8589935 116] by simp

text \<open>
  On the single-tier catalogue, with one group of size 50 and a budget of 1000: one to
  four devices are valid and within budget, all four have the same time, and the search
  keeps the cheapest.
\<close>

lemma scenario1_run:
  "findBestConfig scenario1 [\<lparr>fraction = Fin 1, size_g = Fin 50\<rparr>] (Fin 1000) True =
     Inr \<lparr>config = [4], accessFractions = [Fin 1], bestCost = Fin 10,
          bestTime = Fin (8589935 / 8589934592), bestConfig = [1],
          bestAccessFractions = [Fin 1]\<rparr>"
  by (simp add: findBestConfig_def scenario1_def enumerate'.simps forCount.simps leaf_def
        isValid_def indexes_def tierCapacity_def of_unsigned_small sumSpaceNeeded_def
        configCost_def computeAccessFractions_def placeGroup.simps fgt_def fsub_def
        avgTimePerAccess_def rnd_milli rnd_milli_exact FLT_MAX_def)

text \<open>
  On the catalogue of the source with a budget of 0, no configuration is within budget:
  the search returns its initial state.
\<close>

lemma techs_no_candidate: "filter (candidate techs w (Fin 0)) (allConfigs techs) = []"
proof -
  have "\<forall>t\<in>set techs. nonneg (cost t)" by (simp add: techs_def)
  then have "\<not> candidate techs w (Fin 0) c" for c
    by (auto simp: candidate_def split: sum.splits dest: configCost_not_negative)
  then show ?thesis by simp
qed

lemma techs_zero_budget:
  "\<exists>cfg. findBestConfig techs w (Fin 0) opt = Inr ((initial techs)\<lparr>config := cfg\<rparr>)"
proof (rule findBestConfig_no_candidate)
  show "techs \<noteq> []" by simp
  from techs_no_candidate [of w] show "\<forall>c\<in>set (allConfigs techs). \<not> candidate techs w (Fin 0) c"
    by (simp only: filter_empty_conv)
qed

lemma techs_zero_budget_best:
  "map_sum id bestConfig (findBestConfig techs w (Fin 0) opt) = Inr [0, 0, 0, 0]"
  "map_sum id bestTime (findBestConfig techs w (Fin 0) opt) = Inr FLT_MAX"
  "map_sum id bestCost (findBestConfig techs w (Fin 0) opt) = Inr FLT_MAX"
  using techs_zero_budget [of w opt] by (auto simp: initial_def numeral_eq_Suc)

section \<open>What the search returns\<close>

text \<open>
  Claim C1, amended. When \<open>findBestConfig\<close> returns, its best configuration is either the
  all-zero configuration of the initial state, with the best time and the best cost still
  at their initial value, or a configuration for which \<open>isValid\<close> is true and whose
  \<open>configCost\<close> is the best cost and strictly less than the cost limit.
\<close>

theorem findBestConfig_valid_or_initial:
  assumes "findBestConfig ts w l opt = Inr r"
  shows "(bestConfig r = replicate (length ts) 0 \<and> bestTime r = FLT_MAX \<and> bestCost r = FLT_MAX)
         \<or> (isValid ts (bestConfig r) w = Inr True
             \<and> configCost ts (bestConfig r) = Inr (bestCost r) \<and> flt (bestCost r) l)"
  using assms by (rule findBestConfig_sound)

theorem findBestConfig_valid_or_initial_witness:
  "findBestConfig scenario1 [\<lparr>fraction = Fin 1, size_g = Fin 50\<rparr>] (Fin 1000) True =
     Inr \<lparr>config = [4], accessFractions = [Fin 1], bestCost = Fin 10,
          bestTime = Fin (8589935 / 8589934592), bestConfig = [1],
          bestAccessFractions = [Fin 1]\<rparr>
   \<and> isValid scenario1 [1] [\<lparr>fraction = Fin 1, size_g = Fin 50\<rparr>] = Inr True
   \<and> configCost scenario1 [1] = Inr (Fin 10) \<and> flt (Fin 10) (Fin 1000)"
  using findBestConfig_valid_or_initial [OF scenario1_run] scenario1_run
  by (simp add: scenario1_def)

text \<open>
  The claim as stated fails. With a budget of 0 on the catalogue of the source the search
  returns the all-zero configuration, for which \<open>isValid\<close> is false and whose cost, 0, is
  not strictly less than the limit.
\<close>

theorem findBestConfig_returns_invalid:
  "map_sum id bestConfig
     (findBestConfig techs [\<lparr>fraction = Fin 1, size_g = Fin (2 ^ 36)\<rparr>] (Fin 0) True)
     = Inr [0, 0, 0, 0]
   \<and> isValid techs [0, 0, 0, 0] [\<lparr>fraction = Fin 1, size_g = Fin (2 ^ 36)\<rparr>] = Inr False
   \<and> configCost techs [0, 0, 0, 0] = Inr (Fin 0) \<and> \<not> flt (Fin 0) (Fin 0)"
proof -
  have "configCost techs [0, 0, 0, 0] = Inr (Fin 0)"
    by (simp add: configCost_def techs_def upt_rec of_unsigned_small)
  then show ?thesis by (simp add: techs_zero_budget_best isValid_def)
qed

text \<open>
  Claim C4, amended. When no configuration of the search space is both valid and strictly
  under the cost limit, \<open>findBestConfig\<close> returns the all-zero configuration, and its best
  time and best cost are still the initial value \<open>FLT_MAX\<close>, the largest finite float.
\<close>

theorem findBestConfig_none_feasible:
  assumes "ts \<noteq> []" "filter (candidate ts w l) (allConfigs ts) = []"
  shows "\<exists>r. findBestConfig ts w l opt = Inr r \<and> bestConfig r = replicate (length ts) 0
             \<and> bestTime r = FLT_MAX \<and> bestCost r = FLT_MAX"
proof -
  from assms(2) have "\<forall>c\<in>set (allConfigs ts). \<not> candidate ts w l c"
    by (simp only: filter_empty_conv)
  with assms(1) obtain cfg where "findBestConfig ts w l opt = Inr ((initial ts)\<lparr>config := cfg\<rparr>)"
    using findBestConfig_no_candidate by blast
  then show ?thesis by (simp add: initial_def)
qed

theorem findBestConfig_none_feasible_witness:
  "techs \<noteq> []
   \<and> filter (candidate techs [\<lparr>fraction = Fin 1, size_g = Fin (2 ^ 36)\<rparr>] (Fin 0)) (allConfigs techs) = []
   \<and> (\<exists>r. findBestConfig techs [\<lparr>fraction = Fin 1, size_g = Fin (2 ^ 36)\<rparr>] (Fin 0) True = Inr r
          \<and> bestConfig r = replicate (length techs) 0
          \<and> bestTime r = FLT_MAX \<and> bestCost r = FLT_MAX)"
  using findBestConfig_none_feasible [OF techs_nonempty techs_no_candidate,
      of "[\<lparr>fraction = Fin 1, size_g = Fin (2 ^ 36)\<rparr>]" True]
    techs_no_candidate [of "[\<lparr>fraction = Fin 1, size_g = Fin (2 ^ 36)\<rparr>]"]
  by simp

text \<open>
  The claim as stated fails: the best time that remains is the largest finite float, not
  an infinity.
\<close>

theorem findBestConfig_sentinel_finite:
  "filter (candidate techs [\<lparr>fraction = Fin 1, size_g = Fin (2 ^ 36)\<rparr>] (Fin 0)) (allConfigs techs) = []
   \<and> map_sum id bestTime
       (findBestConfig techs [\<lparr>fraction = Fin 1, size_g = Fin (2 ^ 36)\<rparr>] (Fin 0) True)
     = Inr (Fin ((2 ^ 24 - 1) * 2 ^ 104))
   \<and> Fin ((2 ^ 24 - 1) * 2 ^ 104) \<noteq> PInf"
  by (simp add: techs_zero_budget_best techs_no_candidate FLT_MAX_def)

text \<open>
  Claim C8. The search evaluates exactly the configurations of \<open>allConfigs\<close>, once each
  and in that order; each of them has, for every tier, a device count strictly less than
  the tier's \<open>max_t\<close>; and when every tier's \<open>max_t\<close> is positive, as in the catalogue of
  the source, so has the best configuration returned.
\<close>

theorem search_counts_below_max:
  "erase (findBestConfig ts w l opt) = erase (leaves ts w l opt (allConfigs ts) (initial ts))
   \<and> (\<forall>c\<in>set (allConfigs ts). length c = length ts \<and> (\<forall>t<length ts. c ! t < max_t (ts ! t)))
   \<and> (findBestConfig ts w l opt = Inr r \<longrightarrow> (\<forall>t\<in>set ts. 0 < max_t t) \<longrightarrow>
        length (bestConfig r) = length ts \<and> (\<forall>t<length ts. bestConfig r ! t < max_t (ts ! t)))"
proof (intro conjI impI)
  show "erase (findBestConfig ts w l opt) = erase (leaves ts w l opt (allConfigs ts) (initial ts))"
    by (rule findBestConfig_leaves)
  show "\<forall>c\<in>set (allConfigs ts). length c = length ts \<and> (\<forall>t<length ts. c ! t < max_t (ts ! t))"
    by (simp add: allConfigs_bounds)
next
  assume r: "findBestConfig ts w l opt = Inr r" and pos: "\<forall>t\<in>set ts. 0 < max_t t"
  from pos have "replicate (length ts) 0 \<in> set (allConfigs ts)"
    by (intro allConfigs_member) simp_all
  with findBestConfig_in_range [OF r] have "bestConfig r \<in> set (allConfigs ts)" by auto
  then show "length (bestConfig r) = length ts" "\<forall>t<length ts. bestConfig r ! t < max_t (ts ! t)"
    by (simp_all add: allConfigs_bounds)
qed

theorem search_counts_below_max_witness:
  "findBestConfig scenario1 [\<lparr>fraction = Fin 1, size_g = Fin 50\<rparr>] (Fin 1000) True =
     Inr \<lparr>config = [4], accessFractions = [Fin 1], bestCost = Fin 10,
          bestTime = Fin (8589935 / 8589934592), bestConfig = [1],
          bestAccessFractions = [Fin 1]\<rparr>
   \<and> list_all (\<lambda>t. 0 < max_t t) scenario1
   \<and> allConfigs scenario1 = [[0], [1], [2], [3], [4]]
   \<and> list_all2 (\<lambda>n t. n < max_t t) [1] scenario1"
  using search_counts_below_max
    [of scenario1 "[\<lparr>fraction = Fin 1, size_g = Fin 50\<rparr>]" "Fin 1000" True
        "\<lparr>config = [4], accessFractions = [Fin 1], bestCost = Fin 10,
          bestTime = Fin (8589935 / 8589934592), bestConfig = [1],
          bestAccessFractions = [Fin 1]\<rparr>"]
    scenario1_run
  by (simp add: scenario1_def upt_rec)

section \<open>The simulator never goes below zero\<close>

lemma list_all_update: "list_all P xs \<Longrightarrow> P x \<Longrightarrow> list_all P (xs[i := x])"
  by (auto simp: list_all_iff dest: set_update_subset_insert [THEN subsetD])

text \<open>One turn of the inner loop when the group does not fit.\<close>

lemma spill_step:
  assumes s: "simNonneg s" and g: "wellFormed g" and t: "tech s < length (fractionsOut s)"
    and gt: "fgt (size_g g) (techCapacity s)"
  defines "f \<equiv> fmul (fdiv (techCapacity s) (size_g g)) (fraction g)"
  shows "wellFormed (g\<lparr>fraction := fsub (fraction g) f\<rparr>)"
    and "list_all nonneg ((fractionsOut s)[tech s := fadd (fractionsOut s ! tech s) f])"
proof -
  from g obtain fr sz where fr: "fraction g = Fin fr" "0 \<le> fr" "rnd fr = Fin fr"
    and sz: "size_g g = Fin sz" "0 \<le> sz"
    by (auto simp: wellFormed_def fin_nonneg_iff)
  from s gt sz obtain c where c: "techCapacity s = Fin c" "0 \<le> c" "c < sz"
    by (cases "techCapacity s") (auto simp: simNonneg_def fgt_def)
  have "\<exists>q. rnd (c / sz) = Fin q \<and> 0 \<le> q \<and> q \<le> 1"
    using c by (intro rnd_between) simp_all
  then obtain q where q: "rnd (c / sz) = Fin q" "0 \<le> q" "q \<le> 1" by blast
  have "\<exists>r. rnd (q * fr) = Fin r \<and> 0 \<le> r \<and> r \<le> fr"
    using q fr by (intro rnd_between) (simp_all add: mult_left_le_one_le)
  then obtain f1 where f1: "rnd (q * fr) = Fin f1" "0 \<le> f1" "f1 \<le> fr" by blast
  have f: "f = Fin f1" using c sz fr q f1 by (simp add: f_def)
  have "\<exists>r. rnd (fr - f1) = Fin r \<and> 0 \<le> r \<and> r \<le> fr"
    using f1 fr by (intro rnd_between) simp_all
  then obtain f2 where f2: "rnd (fr - f1) = Fin f2" "0 \<le> f2" by blast
  from f2(1) have "rnd f2 = Fin f2" by (rule rnd_rnd)
  with f2 fr f sz show "wellFormed (g\<lparr>fraction := fsub (fraction g) f\<rparr>)"
    by (simp add: wellFormed_def fsub_def)
  from s t have "nonneg (fractionsOut s ! tech s)" by (simp add: simNonneg_def list_all_length)
  with f f1 have "nonneg (fadd (fractionsOut s ! tech s) f)" by (intro fadd_nonneg) simp_all
  with s show "list_all nonneg ((fractionsOut s)[tech s := fadd (fractionsOut s ! tech s) f])"
    by (intro list_all_update) (simp_all add: simNonneg_def)
qed

text \<open>The last turn of the inner loop, when the group fits.\<close>

lemma fit_step:
  assumes s: "simNonneg s" and g: "wellFormed g" and t: "tech s < length (fractionsOut s)"
    and le: "\<not> fgt (size_g g) (techCapacity s)"
  shows "simNonneg \<lparr>fractionsOut = (fractionsOut s)[tech s := fadd (fractionsOut s ! tech s) (fraction g)],
                    tech = tech s, techCapacity = fsub (techCapacity s) (size_g g)\<rparr>"
proof -
  from g obtain fr sz where fr: "fraction g = Fin fr" "0 \<le> fr"
    and sz: "size_g g = Fin sz" "0 \<le> sz"
    by (auto simp: wellFormed_def fin_nonneg_iff)
  from s le sz have "nonneg (fsub (techCapacity s) (size_g g))"
    by (cases "techCapacity s") (auto simp: simNonneg_def fgt_def fsub_def rnd_nonneg)
  moreover from s t have "nonneg (fractionsOut s ! tech s)" by (simp add: simNonneg_def list_all_length)
  with fr have "nonneg (fadd (fractionsOut s ! tech s) (fraction g))" by (intro fadd_nonneg) simp_all
  with s have "list_all nonneg ((fractionsOut s)[tech s := fadd (fractionsOut s ! tech s) (fraction g)])"
    by (intro list_all_update) (simp_all add: simNonneg_def)
  ultimately show ?thesis by (simp add: simNonneg_def)
qed

lemma groupStates_nonneg:
  "\<forall>t<length ts. t < length c \<longrightarrow> nonneg (tierCapacity ts c t) \<Longrightarrow> simNonneg s \<Longrightarrow> wellFormed g
     \<Longrightarrow> list_all simNonneg (groupStates ts c g s)"
proof (induction ts c g s rule: groupStates.induct)
  case (1 ts c g s)
  note cap = "1.prems"(1) and s = "1.prems"(2) and g = "1.prems"(3)
  show ?case
  proof (cases "tech s < length (fractionsOut s)")
    case False
    then show ?thesis by (simp add: groupStates.simps [of ts c g s])
  next
    case t: True
    show ?thesis
    proof (cases "fgt (size_g g) (techCapacity s)")
      case False
      with t fit_step [OF s g t False] show ?thesis
        by (simp add: groupStates.simps [of ts c g s])
    next
      case gt: True
      define f where "f = fmul (fdiv (techCapacity s) (size_g g)) (fraction g)"
      define s1 where "s1 = \<lparr>fractionsOut = (fractionsOut s)[tech s := fadd (fractionsOut s ! tech s) f],
                        tech = tech s + 1, techCapacity = tierCapacity ts c (tech s + 1)\<rparr>"
      define g1 where "g1 = g\<lparr>fraction := fsub (fraction g) f\<rparr>"
      show ?thesis
      proof (cases "tech s + 1 < length c \<and> tech s + 1 < length ts")
        case False
        with t gt show ?thesis by (auto simp: groupStates.simps [of ts c g s] Let_def)
      next
        case ok: True
        from spill_step [OF s g t gt] have g1: "wellFormed g1"
          and o: "list_all nonneg (fractionsOut s1)"
          by (simp_all add: g1_def s1_def f_def)
        from ok cap have "nonneg (tierCapacity ts c (tech s + 1))" by simp
        with o have s1: "simNonneg s1" by (simp add: simNonneg_def s1_def)
        have "list_all simNonneg (groupStates ts c g1 s1)"
          unfolding g1_def s1_def f_def
          by (rule "1.IH" [OF _ gt refl refl refl refl refl ok cap])
             (use t s1 g1 in \<open>simp_all add: g1_def s1_def f_def\<close>)
        moreover from t gt ok have "groupStates ts c g s = s1 # groupStates ts c g1 s1"
          by (simp add: groupStates.simps [of ts c g s] Let_def s1_def g1_def f_def)
        ultimately show ?thesis using s1 by simp
      qed
    qed
  qed
qed

lemma placeGroup_last:
  "placeGroup ts c g s = Inr s' \<Longrightarrow>
     groupStates ts c g s \<noteq> [] \<and> last (groupStates ts c g s) = s'"
proof (induction ts c g s rule: placeGroup.induct)
  case (1 ts c g s)
  show ?case
  proof (cases "tech s < length (fractionsOut s) \<and> fgt (size_g g) (techCapacity s)
                \<and> tech s + 1 < length c \<and> tech s + 1 < length ts")
    case False
    with "1.prems" show ?thesis
      by (auto simp: placeGroup.simps [of ts c g s] groupStates.simps [of ts c g s] Let_def
          split: if_splits)
  next
    case True
    define f where "f = fmul (fdiv (techCapacity s) (size_g g)) (fraction g)"
    define s1 where "s1 = \<lparr>fractionsOut = (fractionsOut s)[tech s := fadd (fractionsOut s ! tech s) f],
                      tech = tech s + 1, techCapacity = tierCapacity ts c (tech s + 1)\<rparr>"
    define g1 where "g1 = g\<lparr>fraction := fsub (fraction g) f\<rparr>"
    from True "1.prems" have p: "placeGroup ts c g1 s1 = Inr s'"
      by (simp add: placeGroup.simps [of ts c g s] Let_def s1_def g1_def f_def)
    have "groupStates ts c g1 s1 \<noteq> [] \<and> last (groupStates ts c g1 s1) = s'"
      unfolding g1_def s1_def f_def
      by (rule "1.IH" [OF _ _ refl refl refl refl]) (use True p in \<open>simp_all add: g1_def s1_def f_def\<close>)
    moreover from True have "groupStates ts c g s = s1 # groupStates ts c g1 s1"
      by (simp add: groupStates.simps [of ts c g s] Let_def s1_def g1_def f_def)
    ultimately show ?thesis by simp
  qed
qed

lemma placeGroups_last:
  "placeGroups ts c w s = Inr s' \<Longrightarrow> last (s # workloadStates ts c w s) = s'"
proof (induction w arbitrary: s)
  case Nil then show ?case by simp
next
  case (Cons g w)
  from Cons.prems obtain s1 where p: "placeGroup ts c g s = Inr s1"
    and r: "placeGroups ts c w s1 = Inr s'" by (auto split: sum.splits)
  from placeGroup_last [OF p] have ne: "groupStates ts c g s \<noteq> []"
    and l: "last (groupStates ts c g s) = s1" by simp_all
  from Cons.IH [OF r] have "last (s1 # workloadStates ts c w s1) = s'" .
  with p ne l show ?case by (auto simp: last_append)
qed

lemma workloadStates_nonneg:
  assumes cap: "\<forall>t<length ts. t < length c \<longrightarrow> nonneg (tierCapacity ts c t)"
  shows "simNonneg s \<Longrightarrow> list_all wellFormed w \<Longrightarrow> list_all simNonneg (workloadStates ts c w s)"
proof (induction w arbitrary: s)
  case Nil then show ?case by simp
next
  case (Cons g w)
  from Cons.prems have g: "wellFormed g" and w: "list_all wellFormed w" by simp_all
  from cap Cons.prems(1) g have gs: "list_all simNonneg (groupStates ts c g s)"
    by (rule groupStates_nonneg)
  show ?case
  proof (cases "placeGroup ts c g s")
    case (Inl e)
    with gs show ?thesis by simp
  next
    case (Inr s1)
    from placeGroup_last [OF Inr] gs have "simNonneg s1"
      by (metis last_in_set list_all_iff)
    from Cons.IH [OF this w] gs Inr show ?thesis by simp
  qed
qed

lemma tierCapacities_nonneg:
  assumes "\<forall>t\<in>set ts. fin_nonneg (capacity t)" "\<forall>n\<in>set c. n < 2 ^ 32"
  shows "\<forall>t<length ts. t < length c \<longrightarrow> nonneg (tierCapacity ts c t)"
  using assms by (auto intro!: tierCapacity_nonneg)

lemma simulator_nonneg_aux:
  assumes caps: "\<forall>t\<in>set ts. fin_nonneg (capacity t)" and rng: "\<forall>n\<in>set c. n < 2 ^ 32"
    and wf: "list_all wellFormed w"
    and r: "computeAccessFractions ts w c b = Inr (w', c', out)"
  shows "list_all simNonneg (simStates ts w c b) \<and> list_all nonneg out"
proof -
  define s0 where "s0 = \<lparr>fractionsOut = map (\<lambda>_. Fin 0) b, tech = 0, techCapacity = tierCapacity ts c 0\<rparr>"
  from r have ne: "c \<noteq> []" "ts \<noteq> []" by (auto simp: computeAccessFractions_def split: if_splits)
  from r ne obtain s' where p: "placeGroups ts c w s0 = Inr s'" and o: "out = fractionsOut s'"
    by (auto simp: computeAccessFractions_def s0_def split: sum.splits)
  note cap = tierCapacities_nonneg [OF caps rng]
  from ne cap have "nonneg (tierCapacity ts c 0)" by simp
  then have s0: "simNonneg s0" by (simp add: simNonneg_def s0_def list_all_iff)
  from cap s0 wf have "list_all simNonneg (workloadStates ts c w s0)"
    by (rule workloadStates_nonneg)
  with s0 have all: "list_all simNonneg (s0 # workloadStates ts c w s0)" by simp
  from placeGroups_last [OF p] have "s' \<in> set (s0 # workloadStates ts c w s0)"
    by (metis last_in_set list.distinct(1))
  with all have "simNonneg s'" by (simp only: list_all_iff)
  with all o show ?thesis by (simp add: simStates_def Let_def s0_def simNonneg_def)
qed

lemma techs_capacities_nonneg: "\<forall>t\<in>set techs. fin_nonneg (capacity t)"
  using rnd_int [of 1 36] rnd_int [of 1 38] rnd_int [of 1 40] rnd_int [of 1 42]
  by (simp add: techs_def GB_val TB_val)

lemma simStates_techs_1100:
  "simStates techs [\<lparr>fraction = Fin (1 / 2), size_g = Fin (2 ^ 37)\<rparr>] [1, 1, 0, 0]
      [Fin 0, Fin 0, Fin 0, Fin 0] =
   [\<lparr>fractionsOut = [Fin 0, Fin 0, Fin 0, Fin 0], tech = 0, techCapacity = Fin (2 ^ 36)\<rparr>,
    \<lparr>fractionsOut = [Fin (1 / 4), Fin 0, Fin 0, Fin 0], tech = 1, techCapacity = Fin (2 ^ 38)\<rparr>,
    \<lparr>fractionsOut = [Fin (1 / 4), Fin (1 / 4), Fin 0, Fin 0], tech = 1,
      techCapacity = Fin (2 ^ 38 - 2 ^ 37)\<rparr>]"
  using rnd_int [of 1 37]
  by (simp add: simStates_def groupStates.simps placeGroup.simps tierCapacity_techs
        fgt_def Let_def rnd_half rnd_quarter fsub_def)

text \<open>
  Claim C10. Let every capacity of the catalogue be finite and not negative, every device
  count be in the range of \<^verbatim>\<open>unsigned\<close>, and every group have a finite fraction and a
  finite size that are not negative. If \<open>computeAccessFractions\<close> returns without leaving
  the tier list, then in every state it went through the remaining-capacity counter and
  all the fractions are not negative, and so is every entry of the output.
\<close>

theorem simulator_nonneg:
  assumes "\<forall>t\<in>set ts. fin_nonneg (capacity t)" and "\<forall>n\<in>set c. n < 2 ^ 32"
    and "list_all wellFormed w"
    and "computeAccessFractions ts w c b = Inr (w', c', out)"
  shows "list_all simNonneg (simStates ts w c b) \<and> list_all nonneg out"
  using assms by (rule simulator_nonneg_aux)

theorem simulator_nonneg_witness:
  "list_all (\<lambda>t. fin_nonneg (capacity t)) techs
   \<and> list_all (\<lambda>n. n < 2 ^ 32) [1, 1, 0, 0 :: nat]
   \<and> list_all wellFormed [\<lparr>fraction = Fin (1 / 2), size_g = Fin (2 ^ 37)\<rparr>]
   \<and> computeAccessFractions techs [\<lparr>fraction = Fin (1 / 2), size_g = Fin (2 ^ 37)\<rparr>] [1, 1, 0, 0]
        [Fin 0, Fin 0, Fin 0, Fin 0]
       = Inr ([\<lparr>fraction = Fin (1 / 2), size_g = Fin (2 ^ 37)\<rparr>], [1, 1, 0, 0],
              [Fin (1 / 4), Fin (1 / 4), Fin 0, Fin 0])
   \<and> list_all simNonneg
        (simStates techs [\<lparr>fraction = Fin (1 / 2), size_g = Fin (2 ^ 37)\<rparr>] [1, 1, 0, 0]
           [Fin 0, Fin 0, Fin 0, Fin 0])
   \<and> list_all nonneg [Fin (1 / 4), Fin (1 / 4), Fin 0, Fin 0]"
proof -
  have caps: "\<forall>t\<in>set techs. fin_nonneg (capacity t)" by (rule techs_capacities_nonneg)
  have rng: "\<forall>n\<in>set [1, 1, 0, 0 :: nat]. n < 2 ^ 32" by simp
  have wf: "list_all wellFormed [\<lparr>fraction = Fin (1 / 2), size_g = Fin (2 ^ 37)\<rparr>]"
    by (simp add: wellFormed_def rnd_half)
  have run: "computeAccessFractions techs [\<lparr>fraction = Fin (1 / 2), size_g = Fin (2 ^ 37)\<rparr>]
      [1, 1, 0, 0] [Fin 0, Fin 0, Fin 0, Fin 0]
      = Inr ([\<lparr>fraction = Fin (1 / 2), size_g = Fin (2 ^ 37)\<rparr>], [1, 1, 0, 0],
             [Fin (1 / 4), Fin (1 / 4), Fin 0, Fin 0])"
    using computeAccessFractions_techs_1100
      computeAccessFractions_buffer [of "[Fin 0, Fin 0, Fin 0, Fin 0]" "[Fin 7, NaN, PInf, Fin 0]"]
    by simp
  from simulator_nonneg [OF caps rng wf run] caps rng wf run
  show ?thesis by (simp add: list_all_iff)
qed

section \<open>Adding devices\<close>

lemma tierCapacity_mono:
  assumes "fin_nonneg (capacity (ts ! t))" "c ! t \<le> c' ! t" "c' ! t < 2 ^ 32"
  shows "fle (tierCapacity ts c t) (tierCapacity ts c' t)"
proof -
  from assms(1) obtain x where x: "capacity (ts ! t) = Fin x" "0 \<le> x"
    by (auto simp: fin_nonneg_iff)
  from assms(2,3) have "c ! t < 2 ^ 32" by simp
  from of_unsigned_fin [OF this] obtain m where m: "of_unsigned (c ! t) = Fin m" by blast
  from of_unsigned_fin [OF assms(3)] obtain m' where m': "of_unsigned (c' ! t) = Fin m'" by blast
  from assms(2) have "real (c ! t) \<le> real (c' ! t)" by simp
  then have "fle (of_unsigned (c ! t)) (of_unsigned (c' ! t))"
    unfolding of_unsigned_def by (rule rnd_mono)
  with m m' have "m \<le> m'" by (simp add: fle_Fin)
  with x have "m * x \<le> m' * x" by (simp add: mult_right_mono)
  then have "fle (rnd (m * x)) (rnd (m' * x))" by (rule rnd_mono)
  with x m m' show ?thesis by (simp add: tierCapacity_def)
qed

lemma inclusive_last:
  "inclusive ts c p \<Longrightarrow> \<forall>a\<in>set p. nonneg (tierCapacity ts c a) \<Longrightarrow> a \<in> set p
     \<Longrightarrow> fle (tierCapacity ts c a) (tierCapacity ts c (last p))"
proof (induction ts c p arbitrary: a rule: inclusive.induct)
  case (1 ts c x y "is")
  from "1.prems"(1) have nf: "\<not> flt (tierCapacity ts c y) (tierCapacity ts c x)"
    and inc: "inclusive ts c (y # is)" by (auto split: if_splits)
  from "1.prems"(2) have nn: "\<forall>a\<in>set (y # is). nonneg (tierCapacity ts c a)" by simp
  have ylast: "fle (tierCapacity ts c y) (tierCapacity ts c (last (y # is)))"
    using "1.IH" [OF nf inc nn, of y] by simp
  show ?case
  proof (cases "a = x")
    case True
    from "1.prems"(2) nf have "fle (tierCapacity ts c x) (tierCapacity ts c y)"
      by (intro not_flt_fle) simp_all
    with ylast True show ?thesis by (auto intro: fle_trans)
  next
    case False
    with "1.prems"(3) have "a \<in> set (y # is)" by simp
    from "1.IH" [OF nf inc nn this] show ?thesis by simp
  qed
qed (simp_all add: fle_refl)

lemma isValid_TrueD:
  assumes "isValid ts c w = Inr True"
  shows "c \<noteq> []" "c ! 0 \<noteq> 0" "length ts \<le> length c" "inclusive ts c (indexes ts c)"
    "indexes ts c \<noteq> []" "\<not> flt (tierCapacity ts c (last (indexes ts c))) (sumSpaceNeeded w)"
  using assms by (auto simp: isValid_def split: if_splits)

lemma isValid_grow:
  assumes v: "isValid ts c w = Inr True" and le: "list_all2 (\<le>) c c'"
    and inc: "inclusive ts c' (indexes ts c')"
    and caps: "\<forall>t\<in>set ts. fin_nonneg (capacity t)" and rng: "\<forall>n\<in>set c'. n < 2 ^ 32"
  shows "isValid ts c' w = Inr True"
proof -
  note d = isValid_TrueD [OF v]
  from le have len: "length c' = length c" by (simp add: list_all2_lengthD)
  from le have nth: "\<And>t. t < length c \<Longrightarrow> c ! t \<le> c' ! t" by (simp add: list_all2_nthD)
  from d(1) len have ne: "c' \<noteq> []" by auto
  from d(1) nth [of 0] d(2) have z: "c' ! 0 \<noteq> 0" by auto
  from d(5) have tne: "ts \<noteq> []" by (auto simp: indexes_def)
  from tne z have ine: "indexes ts c' \<noteq> []" by (rule indexes_nonempty)
  define L where "L = last (indexes ts c)"
  from d(5) have "L \<in> set (indexes ts c)" by (simp add: L_def)
  then have L: "L < length ts" "c ! L \<noteq> 0" by (simp_all add: indexes_def)
  with d(3) nth [of L] have L': "c' ! L \<noteq> 0" "c ! L \<le> c' ! L" by auto
  with L have Lin: "L \<in> set (indexes ts c')" by (simp add: indexes_def)
  have nn: "\<forall>a\<in>set (indexes ts c'). nonneg (tierCapacity ts c' a)"
  proof
    fix a assume "a \<in> set (indexes ts c')"
    then have a: "a < length ts" by (simp add: indexes_def)
    with d(3) len have "c' ! a \<in> set c'" by simp
    with rng have "c' ! a < 2 ^ 32" by blast
    moreover from a caps have "fin_nonneg (capacity (ts ! a))" by simp
    ultimately show "nonneg (tierCapacity ts c' a)" by (rule tierCapacity_nonneg [rotated])
  qed
  from inc nn Lin have "fle (tierCapacity ts c' L) (tierCapacity ts c' (last (indexes ts c')))"
    by (rule inclusive_last)
  moreover have "fle (tierCapacity ts c L) (tierCapacity ts c' L)"
  proof (rule tierCapacity_mono)
    from L caps show "fin_nonneg (capacity (ts ! L))" by simp
    from L' show "c ! L \<le> c' ! L" by simp
    from L d(3) len have "c' ! L \<in> set c'" by simp
    with rng show "c' ! L < 2 ^ 32" by blast
  qed
  ultimately have "fle (tierCapacity ts c L) (tierCapacity ts c' (last (indexes ts c')))"
    by (blast intro: fle_trans)
  with d(6) have "\<not> flt (tierCapacity ts c' (last (indexes ts c'))) (sumSpaceNeeded w)"
    unfolding L_def by (blast dest: fle_flt_trans)
  with ne z d(3) len inc ine show ?thesis by (simp add: isValid_def)
qed

text \<open>
  Claim C2 fails as stated: devices added to a fast tier can make it larger than the
  populated tier after it. On the catalogue of the source, one RAM and one NVM device are
  valid for a working set of 64 GiB; eight RAM devices (512 GiB) with the same single NVM
  device (256 GiB) are not.
\<close>

theorem isValid_not_monotone:
  "isValid techs [1, 1, 0, 0] [\<lparr>fraction = Fin (1 / 2), size_g = Fin (2 ^ 36)\<rparr>] = Inr True
   \<and> list_all2 (\<le>) [1, 1, 0, 0] [8, 1, 0, 0 :: nat]
   \<and> isValid techs [8, 1, 0, 0] [\<lparr>fraction = Fin (1 / 2), size_g = Fin (2 ^ 36)\<rparr>] = Inr False"
  by (simp add: isValid_def indexes_def upt_rec tierCapacity_techs sumSpaceNeeded_def rnd_2_36)

text \<open>
  Claim C2, amended. Let the capacities of the catalogue be finite and not negative and
  the device counts be in the range of \<^verbatim>\<open>unsigned\<close>. If \<open>isValid\<close> is true of \<open>c\<close>, no tier
  has fewer devices in \<open>c'\<close> than in \<open>c\<close>, and the populated tiers of \<open>c'\<close> still pass the
  check that no level is smaller than the populated level before it, then \<open>isValid\<close> is
  true of \<open>c'\<close>.
\<close>

theorem isValid_monotone_inclusive:
  assumes "isValid ts c w = Inr True" and "list_all2 (\<le>) c c'"
    and "inclusive ts c' (indexes ts c')"
    and "\<forall>t\<in>set ts. fin_nonneg (capacity t)" and "\<forall>n\<in>set c'. n < 2 ^ 32"
  shows "isValid ts c' w = Inr True"
  using assms by (rule isValid_grow)

theorem isValid_monotone_inclusive_witness:
  "isValid techs [1, 1, 0, 0] [\<lparr>fraction = Fin (1 / 2), size_g = Fin (2 ^ 36)\<rparr>] = Inr True
   \<and> list_all2 (\<le>) [1, 1, 0, 0] [2, 3, 0, 0 :: nat]
   \<and> inclusive techs [2, 3, 0, 0] (indexes techs [2, 3, 0, 0])
   \<and> list_all (\<lambda>t. fin_nonneg (capacity t)) techs
   \<and> list_all (\<lambda>n. n < 2 ^ 32) [2, 3, 0, 0 :: nat]
   \<and> isValid techs [2, 3, 0, 0] [\<lparr>fraction = Fin (1 / 2), size_g = Fin (2 ^ 36)\<rparr>] = Inr True"
proof -
  have le: "list_all2 (\<le>) [1, 1, 0, 0] [2, 3, 0, 0 :: nat]" by simp
  have inc: "inclusive techs [2, 3, 0, 0] (indexes techs [2, 3, 0, 0])"
    by (simp add: indexes_def upt_rec tierCapacity_techs)
  have rng: "\<forall>n\<in>set [2, 3, 0, 0 :: nat]. n < 2 ^ 32" by simp
  from isValid_monotone_inclusive [OF isValid_techs_1100 le inc techs_capacities_nonneg rng]
    isValid_techs_1100 le inc techs_capacities_nonneg rng
  show ?thesis by (simp add: list_all_iff)
qed

section \<open>A valid configuration on which the simulator leaves the tier list\<close>

lemma sum_rounds_down:
  "sumSpaceNeeded [\<lparr>fraction = Fin (1 / 2), size_g = Fin (2 ^ 36)\<rparr>,
                   \<lparr>fraction = Fin (1 / 2), size_g = Fin 1\<rparr>] = Fin (2 ^ 36)"
  by (simp add: sumSpaceNeeded_def rnd_2_36 rnd_2_36_1)

lemma overrun_valid:
  "isValid techs [1, 0, 0, 0]
     [\<lparr>fraction = Fin (1 / 2), size_g = Fin (2 ^ 36)\<rparr>, \<lparr>fraction = Fin (1 / 2), size_g = Fin 1\<rparr>]
   = Inr True"
  using sum_rounds_down by (simp add: isValid_def indexes_def upt_rec tierCapacity_techs)

lemma overrun_sim:
  "computeAccessFractions techs
     [\<lparr>fraction = Fin (1 / 2), size_g = Fin (2 ^ 36)\<rparr>, \<lparr>fraction = Fin (1 / 2), size_g = Fin 1\<rparr>]
     [1, 0, 0, 0] [Fin 0, Fin 0, Fin 0, Fin 0]
   = Inl OutOfRange"
  by (simp add: computeAccessFractions_def placeGroup.simps tierCapacity_techs tierCapacity_techs_Suc
        fgt_def Let_def rnd_half fsub_def)

lemma allConfigs_hd:
  "\<forall>t\<in>set ts. 0 < max_t t \<Longrightarrow>
     \<exists>rest. allConfigs ts = replicate (length ts) 0 # rest"
proof (induction ts)
  case Nil then show ?case by simp
next
  case (Cons t ts)
  then obtain rest where r: "allConfigs ts = replicate (length ts) 0 # rest" by auto
  from Cons.prems have "[0..<max_t t] = 0 # [1..<max_t t]" by (simp add: upt_conv_Cons)
  with r show ?case by simp
qed

text \<open>
  The search meets the configuration of one RAM device right after those without RAM,
  which are all rejected.
\<close>

lemma techs_configs_split:
  "\<exists>xs ys. allConfigs techs = xs @ [1, 0, 0, 0] # ys \<and> (\<forall>c\<in>set xs. length c = 4 \<and> c ! 0 = 0)"
proof -
  define ts' where "ts' = tl techs"
  have t: "techs = hd techs # ts'" "max_t (hd techs) = 16" "length ts' = 3"
    by (simp_all add: ts'_def techs_def)
  have "\<forall>t\<in>set ts'. 0 < max_t t" by (simp add: ts'_def techs_def)
  from allConfigs_hd [OF this] t(3) obtain rest where
    X: "allConfigs ts' = [0, 0, 0] # rest" by (auto simp: numeral_3_eq_3)
  have u: "[0..<16] = 0 # 1 # [2..<16]" by (simp add: upt_rec)
  have "allConfigs techs = concat (map (\<lambda>n. map ((#) n) (allConfigs ts')) [0..<16])"
    by (subst t(1)) (simp add: t(2))
  also have "\<dots> = map ((#) 0) (allConfigs ts') @ [1, 0, 0, 0] #
                   (map ((#) 1) rest @ concat (map (\<lambda>n. map ((#) n) (allConfigs ts')) [2..<16]))"
    by (simp add: u X)
  finally have "allConfigs techs = map ((#) 0) (allConfigs ts') @ [1, 0, 0, 0] #
       (map ((#) 1) rest @ concat (map (\<lambda>n. map ((#) n) (allConfigs ts')) [2..<16]))" .
  moreover have "\<forall>c\<in>set (map ((#) 0) (allConfigs ts')). length c = 4 \<and> c ! 0 = 0"
    using t(3) by (auto dest: allConfigs_bounds)
  ultimately show ?thesis by blast
qed

lemma not_candidate_no_ram: "c \<noteq> [] \<Longrightarrow> c ! 0 = 0 \<Longrightarrow> \<not> candidate ts w l c"
  by (simp add: candidate_def isValid_def)

lemma search_overrun:
  "findBestConfig techs
     [\<lparr>fraction = Fin (1 / 2), size_g = Fin (2 ^ 36)\<rparr>, \<lparr>fraction = Fin (1 / 2), size_g = Fin 1\<rparr>]
     (Fin 2000) opt = Inl OutOfRange"
proof -
  let ?w = "[\<lparr>fraction = Fin (1 / 2), size_g = Fin (2 ^ 36)\<rparr>, \<lparr>fraction = Fin (1 / 2), size_g = Fin 1\<rparr>]"
  from techs_configs_split obtain xs ys where
    sp: "allConfigs techs = xs @ [1, 0, 0, 0] # ys" and z: "\<forall>c\<in>set xs. length c = 4 \<and> c ! 0 = 0"
    by blast
  have "\<forall>c\<in>set xs. length c = length techs \<and> \<not> candidate techs ?w (Fin 2000) c"
  proof
    fix c assume "c \<in> set xs"
    with z have c: "length c = 4" "c ! 0 = 0" by auto
    then have "c \<noteq> []" by auto
    from this c(2) have "\<not> candidate techs ?w (Fin 2000) c" by (rule not_candidate_no_ram)
    with c show "length c = length techs \<and> \<not> candidate techs ?w (Fin 2000) c" by simp
  qed
  with techs_nonempty have
    "erase (leaves techs ?w (Fin 2000) opt xs (initial techs)) = erase (Inr (initial techs))"
    by (rule leaves_no_candidate)
  then obtain s1 where l1: "leaves techs ?w (Fin 2000) opt xs (initial techs) = Inr s1"
    and e: "s1\<lparr>config := []\<rparr> = (initial techs)\<lparr>config := []\<rparr>"
    by (cases "leaves techs ?w (Fin 2000) opt xs (initial techs)") auto
  from e have "accessFractions s1 = accessFractions (initial techs)"
    by (metis search.select_convs(2) search.surjective search.update_convs(1))
  then have af: "accessFractions s1 = [Fin 0, Fin 0, Fin 0, Fin 0]"
    by (simp add: initial_def numeral_eq_Suc)
  have cost: "configCost techs [1, 0, 0, 0] = Inr (Fin 500)"
    by (simp add: configCost_def techs_def upt_rec of_unsigned_small)
  have "leaf techs ?w (Fin 2000) opt (s1\<lparr>config := [1, 0, 0, 0]\<rparr>) = Inl OutOfRange"
    using overrun_valid overrun_sim cost af by (simp add: leaf_def)
  with l1 have "leaves techs ?w (Fin 2000) opt (allConfigs techs) (initial techs) = Inl OutOfRange"
    by (simp add: sp leaves_append)
  then have "erase (findBestConfig techs ?w (Fin 2000) opt) = Inl OutOfRange"
    by (simp add: findBestConfig_leaves)
  then show ?thesis by (simp only: erase_eq_Inl)
qed

text \<open>
  Claim C7, at an input where it fails. The workload has two groups of sizes 64 GiB and
  1 byte, both not negative. Their single-precision sum is 64 GiB, since \<open>2 ^ 36 + 1\<close> has
  no 24-bit significand: \<open>isValid\<close> accepts one RAM device of 64 GiB. The simulator places
  the first group in RAM, finds no room for the second, and advances through the three
  unpopulated tiers and past the last one. A search with a budget of 2000 reaches this
  configuration and fails in the same way.
\<close>

theorem simulator_overrun:
  "isValid techs [1, 0, 0, 0]
     [\<lparr>fraction = Fin (1 / 2), size_g = Fin (2 ^ 36)\<rparr>, \<lparr>fraction = Fin (1 / 2), size_g = Fin 1\<rparr>]
   = Inr True
   \<and> list_all wellFormed
       [\<lparr>fraction = Fin (1 / 2), size_g = Fin (2 ^ 36)\<rparr>, \<lparr>fraction = Fin (1 / 2), size_g = Fin 1\<rparr>]
   \<and> computeAccessFractions techs
       [\<lparr>fraction = Fin (1 / 2), size_g = Fin (2 ^ 36)\<rparr>, \<lparr>fraction = Fin (1 / 2), size_g = Fin 1\<rparr>]
       [1, 0, 0, 0] [Fin 0, Fin 0, Fin 0, Fin 0]
     = Inl OutOfRange
   \<and> findBestConfig techs
       [\<lparr>fraction = Fin (1 / 2), size_g = Fin (2 ^ 36)\<rparr>, \<lparr>fraction = Fin (1 / 2), size_g = Fin 1\<rparr>]
       (Fin 2000) True
     = Inl OutOfRange"
  using overrun_valid overrun_sim search_overrun by (simp add: wellFormed_def rnd_half)

section \<open>A configuration accepted although its last level is too small\<close>

lemma undersized_capacity:
  "totalCapacity techs [1, 0, 0, 0] 0 = 2 ^ 36"
  by (simp add: totalCapacity_def techs_capacity)

lemma undersized_sum:
  "sizeSum [\<lparr>fraction = Fin (1 / 2), size_g = Fin (2 ^ 36)\<rparr>, \<lparr>fraction = Fin (1 / 2), size_g = Fin 1\<rparr>] = 2 ^ 36 + 1"
  by (simp add: sizeSum_def)

lemma undersized_not_feasible:
  "\<not> feasible techs [1, 0, 0, 0] [\<lparr>fraction = Fin (1 / 2), size_g = Fin (2 ^ 36)\<rparr>, \<lparr>fraction = Fin (1 / 2), size_g = Fin 1\<rparr>]"
  using undersized_capacity undersized_sum by (simp add: feasible_def upt_rec)

text \<open>
  Claim C5, at an input where the code departs from it. One RAM device has a total
  capacity of 64 GiB; the two groups need 64 GiB and 1 byte. The last populated tier's
  total capacity is strictly less than the sum of the sizes, so that by the third rule the
  configuration is not feasible, and \<open>isValid\<close> returns true: its running sum is in single
  precision, where \<open>2 ^ 36 + 1\<close> rounds to \<open>2 ^ 36\<close>.
\<close>

theorem isValid_accepts_undersized:
  "isValid techs [1, 0, 0, 0] [\<lparr>fraction = Fin (1 / 2), size_g = Fin (2 ^ 36)\<rparr>, \<lparr>fraction = Fin (1 / 2), size_g = Fin 1\<rparr>]
   = Inr True
   \<and> totalCapacity techs [1, 0, 0, 0] 0 = 2 ^ 36
   \<and> sizeSum [\<lparr>fraction = Fin (1 / 2), size_g = Fin (2 ^ 36)\<rparr>, \<lparr>fraction = Fin (1 / 2), size_g = Fin 1\<rparr>] = 2 ^ 36 + 1
   \<and> sumSpaceNeeded [\<lparr>fraction = Fin (1 / 2), size_g = Fin (2 ^ 36)\<rparr>, \<lparr>fraction = Fin (1 / 2), size_g = Fin 1\<rparr>] = Fin (2 ^ 36)
   \<and> \<not> feasible techs [1, 0, 0, 0] [\<lparr>fraction = Fin (1 / 2), size_g = Fin (2 ^ 36)\<rparr>, \<lparr>fraction = Fin (1 / 2), size_g = Fin 1\<rparr>]"
  using overrun_valid undersized_capacity undersized_sum sum_rounds_down undersized_not_feasible
  by simp

section \<open>The search returns the best candidate\<close>

text \<open>A strictly better score precedes whatever the beaten score preceded, at any position.\<close>

lemma precedes_strict:
  assumes "flt t bt \<or> (feq t bt \<and> flt c bc)" "precedes (bt, bc, i) (t', c', j)"
  shows "flt t t' \<or> (feq t t' \<and> flt c c')"
  using assms
  by (auto intro: flt_trans flt_feq_trans feq_flt_trans feq_trans)

lemma precedes_not_better:
  assumes "\<not> (flt t bt \<or> (feq t bt \<and> flt c bc))" "t \<noteq> NaN" "bt \<noteq> NaN" "c \<noteq> NaN" "bc \<noteq> NaN"
    "i \<le> j"
  shows "precedes (bt, bc, i) (t, c, j)"
  using assms f32_trichotomy [of bt t] f32_trichotomy [of bc c]
  by (auto dest: feq_sym)

lemma leaf_time:
  assumes "computeAccessFractions ts w c b = Inr (w, c, fr)" "length b = length ts"
    "(if opt then avgTimePerAccess ts fr else avgLatencyPerAccess ts fr) = Inr time"
  shows "timeOf ts w opt c = Inr time"
proof -
  from assms(2) have "computeAccessFractions ts w c (replicate (length ts) (Fin 0))
      = computeAccessFractions ts w c b"
    by (intro computeAccessFractions_buffer) simp
  with assms(1,3) show ?thesis by (simp add: timeOf_def)
qed

lemma candidate_cost:
  "candidate ts w l c \<Longrightarrow> configCost ts c = Inr cst \<Longrightarrow> flt cst l"
  by (simp add: candidate_def)

lemma leaves_prefix_optimal:
  assumes below: "\<forall>c\<in>set (allConfigs ts). candidate ts w l c \<longrightarrow>
                    (\<forall>t. timeOf ts w opt c = Inr t \<longrightarrow> flt t FLT_MAX)"
  shows "n \<le> length (allConfigs ts) \<Longrightarrow>
         leaves ts w l opt (take n (allConfigs ts)) (initial ts) = Inr s \<Longrightarrow>
         length (accessFractions s) = length ts
         \<and> (((\<forall>j<n. \<not> candidate ts w l (allConfigs ts ! j))
               \<and> bestTime s = FLT_MAX \<and> bestCost s = FLT_MAX)
             \<or> (\<exists>i. optimalAmong ts w l opt n i s))"
proof (induction n arbitrary: s)
  case 0
  then have "s = initial ts" by simp
  then show ?case by (simp add: initial_def)
next
  case (Suc n)
  let ?cs = "allConfigs ts"
  let ?c = "?cs ! n"
  from Suc.prems(1) have n: "n < length ?cs" by simp
  then have tk: "take (Suc n) ?cs = take n ?cs @ [?c]" by (rule take_Suc_conv_app_nth)
  from Suc.prems(2) obtain s1 where
    l1: "leaves ts w l opt (take n ?cs) (initial ts) = Inr s1" and
    lf: "leaf ts w l opt (s1\<lparr>config := ?c\<rparr>) = Inr s"
    by (auto simp: tk leaves_append split: sum.splits)
  from n have "n \<le> length ?cs" by simp
  from Suc.IH [OF this l1] have len1: "length (accessFractions s1) = length ts"
    and ih: "((\<forall>j<n. \<not> candidate ts w l (?cs ! j)) \<and> bestTime s1 = FLT_MAX \<and> bestCost s1 = FLT_MAX)
             \<or> (\<exists>i. optimalAmong ts w l opt n i s1)" by simp_all
  from n have cin: "?c \<in> set ?cs" by simp
  from lf show ?case
  proof (cases rule: leaf_cases)
    case skip
    then have nc: "\<not> candidate ts w l ?c" and s: "s = s1\<lparr>config := ?c\<rparr>" by simp_all
    from ih show ?thesis
    proof
      assume "(\<forall>j<n. \<not> candidate ts w l (?cs ! j)) \<and> bestTime s1 = FLT_MAX \<and> bestCost s1 = FLT_MAX"
      with nc s len1 show ?thesis by (auto simp: less_Suc_eq)
    next
      assume "\<exists>i. optimalAmong ts w l opt n i s1"
      then obtain i where "optimalAmong ts w l opt n i s1" ..
      with nc s have "optimalAmong ts w l opt (Suc n) i s"
        by (auto simp: optimalAmong_def less_Suc_eq)
      with s len1 show ?thesis by auto
    qed
  next
    case (reject fr cst time)
    then have cand: "candidate ts w l ?c" and cc: "configCost ts ?c = Inr cst"
      and nb: "\<not> (flt time (bestTime s1) \<or> (feq time (bestTime s1) \<and> flt cst (bestCost s1)))"
      and s: "s = s1\<lparr>config := ?c, accessFractions := fr\<rparr>"
      and len: "length fr = length ts"
      using len1 by simp_all
    from reject len1 have tm: "timeOf ts w opt ?c = Inr time"
      by (intro leaf_time [of ts w ?c "accessFractions s1" fr]) simp_all
    with below cin cand have tlt: "flt time FLT_MAX" by blast
    from cand cc have clt: "flt cst l" by (rule candidate_cost)
    from ih show ?thesis
    proof
      assume "(\<forall>j<n. \<not> candidate ts w l (?cs ! j)) \<and> bestTime s1 = FLT_MAX \<and> bestCost s1 = FLT_MAX"
      with nb tlt show ?thesis by simp
    next
      assume "\<exists>i. optimalAmong ts w l opt n i s1"
      then obtain i where o: "optimalAmong ts w l opt n i s1" ..
      then have i: "i < n" "candidate ts w l (?cs ! i)" "timeOf ts w opt (?cs ! i) = Inr (bestTime s1)"
        "configCost ts (?cs ! i) = Inr (bestCost s1)" by (simp_all add: optimalAmong_def)
      from i(1) n have "?cs ! i \<in> set ?cs" by simp
      with below i have "flt (bestTime s1) FLT_MAX" by blast
      moreover from i have "flt (bestCost s1) l" by (intro candidate_cost)
      ultimately have "precedes (bestTime s1, bestCost s1, i) (time, cst, n)"
        using nb tlt clt i(1) by (intro precedes_not_better) (auto dest: flt_not_NaN)
      with o tm cc s have "optimalAmong ts w l opt (Suc n) i s"
        by (auto simp: optimalAmong_def less_Suc_eq)
      with len s show ?thesis by auto
    qed
  next
    case (accept fr cst time)
    then have cand: "candidate ts w l ?c" and cc: "configCost ts ?c = Inr cst"
      and better: "flt time (bestTime s1) \<or> (feq time (bestTime s1) \<and> flt cst (bestCost s1))"
      and s: "s = s1\<lparr>config := ?c, accessFractions := fr, bestTime := time, bestConfig := ?c,
                     bestAccessFractions := fr, bestCost := cst\<rparr>"
      and len: "length fr = length ts"
      using len1 by simp_all
    from accept len1 have tm: "timeOf ts w opt ?c = Inr time"
      by (intro leaf_time [of ts w ?c "accessFractions s1" fr]) simp_all
    with below cin cand have tlt: "flt time FLT_MAX" by blast
    from cand cc have clt: "flt cst l" by (rule candidate_cost)
    have self: "precedes (time, cst, n) (time, cst, n)"
      using tlt clt by (auto dest!: flt_not_NaN intro: feq_refl)
    have "\<forall>j<Suc n. candidate ts w l (?cs ! j) \<longrightarrow>
            (\<exists>t c. timeOf ts w opt (?cs ! j) = Inr t \<and> configCost ts (?cs ! j) = Inr c
                   \<and> precedes (time, cst, n) (t, c, j))"
    proof (intro allI impI)
      fix j assume j: "j < Suc n" and cj: "candidate ts w l (?cs ! j)"
      show "\<exists>t c. timeOf ts w opt (?cs ! j) = Inr t \<and> configCost ts (?cs ! j) = Inr c
                   \<and> precedes (time, cst, n) (t, c, j)"
      proof (cases "j = n")
        case True
        with tm cc self show ?thesis by auto
      next
        case False
        with j have jn: "j < n" by simp
        with cj ih obtain i where o: "optimalAmong ts w l opt n i s1" by auto
        with jn cj obtain t c where t: "timeOf ts w opt (?cs ! j) = Inr t"
          "configCost ts (?cs ! j) = Inr c" "precedes (bestTime s1, bestCost s1, i) (t, c, j)"
          by (auto simp: optimalAmong_def)
        from precedes_strict [OF better t(3)] have "precedes (time, cst, n) (t, c, j)" by auto
        with t show ?thesis by auto
      qed
    qed
    with cand tm cc s have "optimalAmong ts w l opt (Suc n) n s"
      by (simp add: optimalAmong_def)
    with len s show ?thesis by auto
  qed
qed

lemma findBestConfig_optimal_aux:
  assumes r: "findBestConfig ts w l opt = Inr r"
    and some: "filter (candidate ts w l) (allConfigs ts) \<noteq> []"
    and below: "\<forall>c\<in>set (allConfigs ts). candidate ts w l c \<longrightarrow>
                    (\<forall>t. timeOf ts w opt c = Inr t \<longrightarrow> flt t FLT_MAX)"
  shows "\<exists>i. optimalAmong ts w l opt (length (allConfigs ts)) i r"
proof -
  have "erase (findBestConfig ts w l opt) = erase (leaves ts w l opt (allConfigs ts) (initial ts))"
    by (rule findBestConfig_leaves)
  from erase_eqD [OF this r] obtain r' where
    l: "leaves ts w l opt (allConfigs ts) (initial ts) = Inr r'" and
    e: "r\<lparr>config := []\<rparr> = r'\<lparr>config := []\<rparr>" by blast
  from e have eq: "bestConfig r = bestConfig r'" "bestTime r = bestTime r'" "bestCost r = bestCost r'"
    by (metis search.select_convs(3-5) search.surjective search.update_convs(1))+
  from l have "leaves ts w l opt (take (length (allConfigs ts)) (allConfigs ts)) (initial ts) = Inr r'"
    by simp
  from leaves_prefix_optimal [OF below _ this] have
    "((\<forall>j<length (allConfigs ts). \<not> candidate ts w l (allConfigs ts ! j))
        \<and> bestTime r' = FLT_MAX \<and> bestCost r' = FLT_MAX)
     \<or> (\<exists>i. optimalAmong ts w l opt (length (allConfigs ts)) i r')" by simp
  moreover from some obtain c where "c \<in> set (allConfigs ts)" "candidate ts w l c"
    by (auto simp: filter_empty_conv)
  then obtain j where "j < length (allConfigs ts)" "candidate ts w l (allConfigs ts ! j)"
    by (auto simp: in_set_conv_nth)
  ultimately obtain i where "optimalAmong ts w l opt (length (allConfigs ts)) i r'" by blast
  with eq have "optimalAmong ts w l opt (length (allConfigs ts)) i r" by (simp add: optimalAmong_def)
  then show ?thesis ..
qed







section \<open>Mass is conserved up to rounding\<close>

lemma val_fneg [simp]: "val (fneg a) = - val a"
  by (cases a) simp_all

lemma total_update: "t < length xs \<Longrightarrow> total (xs[t := v]) = total xs - val (xs ! t) + val v"
  unfolding total_def
proof (induction xs arbitrary: t)
  case Nil then show ?case by simp
next
  case (Cons x xs)
  then show ?case by (cases t) simp_all
qed

lemma placeGroup_mass:
  "placeGroup ts c g s = Inr s' \<Longrightarrow>
     total (fractionsOut s') =
       total (fractionsOut s) + val (fraction g) + sum_list (map roundErr (groupOps ts c g s))"
proof (induction ts c g s rule: placeGroup.induct)
  case (1 ts c g s)
  show ?case
  proof (cases "tech s < length (fractionsOut s) \<and> fgt (size_g g) (techCapacity s)
                \<and> tech s + 1 < length c \<and> tech s + 1 < length ts")
    case False
    with "1.prems" show ?thesis
      by (auto simp: placeGroup.simps [of ts c g s] groupOps.simps [of ts c g s] Let_def
          total_update split: if_splits)
  next
    case True
    define f where "f = fmul (fdiv (techCapacity s) (size_g g)) (fraction g)"
    define s1 where "s1 = \<lparr>fractionsOut = (fractionsOut s)[tech s := fadd (fractionsOut s ! tech s) f],
                      tech = tech s + 1, techCapacity = tierCapacity ts c (tech s + 1)\<rparr>"
    define g1 where "g1 = g\<lparr>fraction := fsub (fraction g) f\<rparr>"
    from True "1.prems" have p: "placeGroup ts c g1 s1 = Inr s'"
      by (simp add: placeGroup.simps [of ts c g s] Let_def s1_def g1_def f_def)
    have "total (fractionsOut s') =
       total (fractionsOut s1) + val (fraction g1) + sum_list (map roundErr (groupOps ts c g1 s1))"
      unfolding g1_def s1_def f_def
      by (rule "1.IH" [OF _ _ refl refl refl refl]) (use True p in \<open>simp_all add: g1_def s1_def f_def\<close>)
    moreover from True have "groupOps ts c g s =
        (fractionsOut s ! tech s, f) # (fraction g, fneg f) # groupOps ts c g1 s1"
      by (simp add: groupOps.simps [of ts c g s] Let_def s1_def g1_def f_def)
    moreover from True have "total (fractionsOut s1) =
        total (fractionsOut s) - val (fractionsOut s ! tech s) + val (fadd (fractionsOut s ! tech s) f)"
      by (simp add: s1_def total_update)
    moreover have "val (fraction g1) = val (fadd (fraction g) (fneg f))"
      by (simp add: g1_def fsub_def)
    ultimately show ?thesis by simp
  qed
qed

lemma placeGroups_mass:
  "placeGroups ts c w s = Inr s' \<Longrightarrow>
     total (fractionsOut s') =
       total (fractionsOut s) + sum_list (map (\<lambda>g. val (fraction g)) w)
       + sum_list (map roundErr (workloadOps ts c w s))"
proof (induction w arbitrary: s)
  case Nil then show ?case by simp
next
  case (Cons g w)
  from Cons.prems obtain s1 where p: "placeGroup ts c g s = Inr s1"
    and r: "placeGroups ts c w s1 = Inr s'" by (auto split: sum.splits)
  from placeGroup_mass [OF p] Cons.IH [OF r] p show ?case by simp
qed

lemma total_zeros: "total (map (\<lambda>_. Fin 0) b) = 0"
  by (induction b) (simp_all add: total_def)

lemma simulator_mass:
  assumes "computeAccessFractions ts w c b = Inr (w', c', out)"
  shows "total out = sum_list (map (\<lambda>g. val (fraction g)) w)
                     + sum_list (map roundErr (simOps ts w c b))"
proof -
  from assms obtain s' where p: "placeGroups ts c w
      \<lparr>fractionsOut = map (\<lambda>_. Fin 0) b, tech = 0, techCapacity = tierCapacity ts c 0\<rparr> = Inr s'"
    and o: "out = fractionsOut s'"
    by (auto simp: computeAccessFractions_def split: if_splits sum.splits)
  from placeGroups_mass [OF p] o show ?thesis by (simp add: simOps_def total_zeros)
qed

lemma rnd_third: "rnd (1 / 3) = Fin (11184811 / 33554432)"
proof -
  have "rfin (1 / 3) = of_int (rhe ((1 / 3) / (2 ^ 124 / 2 ^ 149))) * (2 ^ 124 / 2 ^ 149)"
    by (rule rfin_binade) simp_all
  also have "\<dots> = 11184811 / 33554432" by (simp add: rhe_def)
  finally show ?thesis by (simp add: rnd_def)
qed

lemma rnd_c3_f: "rnd (11184811 / 134217728) = Fin (11184811 / 134217728)"
  using rnd_grid [of 11184811 122] by simp

lemma rnd_c3_rest: "rnd (22369621 / 134217728) = Fin (5592405 / 33554432)"
proof -
  have "rfin (22369621 / 134217728) = of_int (rhe ((22369621 / 134217728) / (2 ^ 123 / 2 ^ 149))) * (2 ^ 123 / 2 ^ 149)"
    by (rule rfin_binade) simp_all
  also have "\<dots> = 5592405 / 33554432" by (simp add: rhe_def)
  finally show ?thesis by (simp add: rnd_def)
qed

lemma rnd_c3_rest_exact: "rnd (5592405 / 33554432) = Fin (5592405 / 33554432)"
  using rnd_grid [of 5592405 124] by simp

lemma rnd_c3_acc: "rnd (30758229 / 33554432) = Fin (7689557 / 8388608)"
proof -
  have "rfin (30758229 / 33554432) = of_int (rhe ((30758229 / 33554432) / (2 ^ 125 / 2 ^ 149))) * (2 ^ 125 / 2 ^ 149)"
    by (rule rfin_binade) simp_all
  also have "\<dots> = 7689557 / 8388608" by (simp add: rhe_def)
  finally show ?thesis by (simp add: rnd_def)
qed

lemma rnd_c3_sum: "rnd (134217723 / 134217728) = Fin (16777215 / 16777216)"
proof -
  have "rfin (134217723 / 134217728) = of_int (rhe ((134217723 / 134217728) / (2 ^ 125 / 2 ^ 149))) * (2 ^ 125 / 2 ^ 149)"
    by (rule rfin_binade) simp_all
  also have "\<dots> = 16777215 / 16777216" by (simp add: rhe_def)
  finally show ?thesis by (simp add: rnd_def)
qed

lemma rnd_c3_out1: "rnd (7689557 / 8388608) = Fin (7689557 / 8388608)"
  using rnd_grid [of 7689557 126] by simp

lemma rnd_three_quarters: "rnd (3 / 4) = Fin (3 / 4)"
  using rnd_grid [of 3 147] by simp


lemma rnd_3_2_36: "rnd 206158430208 = Fin 206158430208"
  using rnd_int [of 3 36] by simp

lemma rnd_7_2_35: "rnd 240518168576 = Fin 240518168576"
  using rnd_int [of 7 35] by simp

lemma rnd_2_35: "rnd 34359738368 = Fin 34359738368"
  using rnd_int [of 1 35] by simp

lemma mass_valid:
  "isValid techs [1, 1, 0, 0]
     [\<lparr>fraction = Fin (1 / 4), size_g = Fin (3 * 2 ^ 36)\<rparr>, \<lparr>fraction = Fin (3 / 4), size_g = Fin (2 ^ 35)\<rparr>]
   = Inr True"
  by (simp add: isValid_def indexes_def upt_rec tierCapacity_techs sumSpaceNeeded_def
        rnd_3_2_36 rnd_7_2_35)

lemma mass_run:
  "computeAccessFractions techs
     [\<lparr>fraction = Fin (1 / 4), size_g = Fin (3 * 2 ^ 36)\<rparr>, \<lparr>fraction = Fin (3 / 4), size_g = Fin (2 ^ 35)\<rparr>]
     [1, 1, 0, 0] [Fin 0, Fin 0, Fin 0, Fin 0]
   = Inr ([\<lparr>fraction = Fin (1 / 4), size_g = Fin (3 * 2 ^ 36)\<rparr>, \<lparr>fraction = Fin (3 / 4), size_g = Fin (2 ^ 35)\<rparr>],
          [1, 1, 0, 0],
          [Fin (11184811 / 134217728), Fin (7689557 / 8388608), Fin 0, Fin 0])"
  by (simp add: computeAccessFractions_def placeGroup.simps tierCapacity_techs tierCapacity_techs_Suc
        fgt_def Let_def fsub_def rnd_third rnd_c3_f rnd_c3_rest rnd_c3_rest_exact rnd_c3_acc
        rnd_2_36 rnd_2_35)

lemma mass_sums:
  "foldl fadd (Fin 0) [Fin (11184811 / 134217728), Fin (7689557 / 8388608), Fin 0, Fin 0]
     = Fin (16777215 / 16777216)"
  "foldl fadd (Fin 0) [Fin (1 / 4), Fin (3 / 4)] = Fin 1"
  using rnd_grid [of 16777215 125]
  by (simp_all add: rnd_c3_f rnd_c3_sum rnd_quarter)

lemma mass_ops:
  "simOps techs
     [\<lparr>fraction = Fin (1 / 4), size_g = Fin (3 * 2 ^ 36)\<rparr>, \<lparr>fraction = Fin (3 / 4), size_g = Fin (2 ^ 35)\<rparr>]
     [1, 1, 0, 0] [Fin 0, Fin 0, Fin 0, Fin 0]
   = [(Fin 0, Fin (11184811 / 134217728)), (Fin (1 / 4), Fin (- (11184811 / 134217728))),
      (Fin 0, Fin (5592405 / 33554432)), (Fin (5592405 / 33554432), Fin (3 / 4))]"
  by (simp add: simOps_def groupOps.simps placeGroup.simps tierCapacity_techs tierCapacity_techs_Suc
        fgt_def Let_def fsub_def rnd_third rnd_c3_f rnd_c3_rest rnd_c3_rest_exact rnd_c3_acc
        rnd_2_36 rnd_2_35)

lemma mass_errors:
  "map roundErr
     [(Fin 0, Fin (11184811 / 134217728)), (Fin (1 / 4), Fin (- (11184811 / 134217728))),
      (Fin 0, Fin (5592405 / 33554432)), (Fin (5592405 / 33554432), Fin (3 / 4))]
   = [0, - (1 / 134217728), 0, - (1 / 33554432)]"
  by (simp add: rnd_c3_f rnd_c3_rest rnd_c3_rest_exact rnd_c3_acc)

text \<open>
  The two sums agree up to rounding only. On the catalogue of the source, with one RAM and
  one NVM device, a valid configuration for the groups (1/4, 192 GiB) and (3/4, 32 GiB),
  the subtraction \<open>1/4 - f\<close> and the addition of 3/4 each round down: the fractions
  written sum to \<open>1 - 5 / 2 ^ 27\<close>, and to the float next below 1 when added in single
  precision.
\<close>

lemma mass_rounded:
  "isValid techs [1, 1, 0, 0]
     [\<lparr>fraction = Fin (1 / 4), size_g = Fin (3 * 2 ^ 36)\<rparr>, \<lparr>fraction = Fin (3 / 4), size_g = Fin (2 ^ 35)\<rparr>]
   = Inr True
   \<and> computeAccessFractions techs
     [\<lparr>fraction = Fin (1 / 4), size_g = Fin (3 * 2 ^ 36)\<rparr>, \<lparr>fraction = Fin (3 / 4), size_g = Fin (2 ^ 35)\<rparr>]
     [1, 1, 0, 0] [Fin 0, Fin 0, Fin 0, Fin 0]
   = Inr ([\<lparr>fraction = Fin (1 / 4), size_g = Fin (3 * 2 ^ 36)\<rparr>, \<lparr>fraction = Fin (3 / 4), size_g = Fin (2 ^ 35)\<rparr>],
          [1, 1, 0, 0],
          [Fin (11184811 / 134217728), Fin (7689557 / 8388608), Fin 0, Fin 0])
   \<and> total [Fin (11184811 / 134217728), Fin (7689557 / 8388608), Fin 0, Fin 0] = 134217723 / 134217728
   \<and> total [Fin (1 / 4), Fin (3 / 4)] = 1
   \<and> foldl fadd (Fin 0) [Fin (11184811 / 134217728), Fin (7689557 / 8388608), Fin 0, Fin 0]
       = Fin (16777215 / 16777216)
   \<and> foldl fadd (Fin 0) [Fin (1 / 4), Fin (3 / 4)] = Fin 1"
  using mass_valid mass_run mass_sums by (simp add: total_def)

text \<open>
  Whenever \<open>computeAccessFractions\<close> returns, the sum of the fractions it wrote is the sum
  of the groups' fractions plus the sum of the rounding errors of its additions and
  subtractions on fractions; and the rounding error of each of them, when its operands and
  its result are finite, is at most half the grid spacing at the exact result.
\<close>

lemma mass_up_to_rounding:
  assumes "computeAccessFractions ts w c b = Inr (w', c', out)"
  shows "total out = sum_list (map (\<lambda>g. val (fraction g)) w)
                     + sum_list (map roundErr (simOps ts w c b))
         \<and> (\<forall>(x, y)\<in>set (simOps ts w c b). \<forall>p q r.
               x = Fin p \<and> y = Fin q \<and> fadd x y = Fin r \<longrightarrow>
               \<bar>roundErr (x, y)\<bar> \<le> ulp (p + q) / 2)"
proof
  from assms show "total out = sum_list (map (\<lambda>g. val (fraction g)) w)
                     + sum_list (map roundErr (simOps ts w c b))"
    by (rule simulator_mass)
  show "\<forall>(x, y)\<in>set (simOps ts w c b). \<forall>p q r.
          x = Fin p \<and> y = Fin q \<and> fadd x y = Fin r \<longrightarrow> \<bar>roundErr (x, y)\<bar> \<le> ulp (p + q) / 2"
    using fadd_err by fastforce
qed

lemma mass_up_to_rounding_example:
  "computeAccessFractions techs
     [\<lparr>fraction = Fin (1 / 4), size_g = Fin (3 * 2 ^ 36)\<rparr>, \<lparr>fraction = Fin (3 / 4), size_g = Fin (2 ^ 35)\<rparr>]
     [1, 1, 0, 0] [Fin 0, Fin 0, Fin 0, Fin 0]
   = Inr ([\<lparr>fraction = Fin (1 / 4), size_g = Fin (3 * 2 ^ 36)\<rparr>, \<lparr>fraction = Fin (3 / 4), size_g = Fin (2 ^ 35)\<rparr>],
          [1, 1, 0, 0],
          [Fin (11184811 / 134217728), Fin (7689557 / 8388608), Fin 0, Fin 0])
   \<and> map roundErr (simOps techs
         [\<lparr>fraction = Fin (1 / 4), size_g = Fin (3 * 2 ^ 36)\<rparr>, \<lparr>fraction = Fin (3 / 4), size_g = Fin (2 ^ 35)\<rparr>]
         [1, 1, 0, 0] [Fin 0, Fin 0, Fin 0, Fin 0])
       = [0, - (1 / 134217728), 0, - (1 / 33554432)]
   \<and> total [Fin (11184811 / 134217728), Fin (7689557 / 8388608), Fin 0, Fin 0]
       = 1 + (0 + - (1 / 134217728) + 0 + - (1 / 33554432))"
  using mass_up_to_rounding [OF mass_run] mass_run mass_ops mass_errors
  by (simp add: total_def)

section \<open>Mass lost on a valid configuration\<close>

lemma overrun_states:
  "simStates techs [\<lparr>fraction = Fin (1 / 2), size_g = Fin (2 ^ 36)\<rparr>, \<lparr>fraction = Fin (1 / 2), size_g = Fin 1\<rparr>] [1, 0, 0, 0] [Fin 0, Fin 0, Fin 0, Fin 0] =
   [\<lparr>fractionsOut = [Fin 0, Fin 0, Fin 0, Fin 0], tech = 0, techCapacity = Fin (2 ^ 36)\<rparr>,
    \<lparr>fractionsOut = [Fin (1 / 2), Fin 0, Fin 0, Fin 0], tech = 0, techCapacity = Fin 0\<rparr>,
    \<lparr>fractionsOut = [Fin (1 / 2), Fin 0, Fin 0, Fin 0], tech = 1, techCapacity = Fin 0\<rparr>,
    \<lparr>fractionsOut = [Fin (1 / 2), Fin 0, Fin 0, Fin 0], tech = 2, techCapacity = Fin 0\<rparr>,
    \<lparr>fractionsOut = [Fin (1 / 2), Fin 0, Fin 0, Fin 0], tech = 3, techCapacity = Fin 0\<rparr>]"
  by (simp add: simStates_def groupStates.simps placeGroup.simps tierCapacity_techs
        tierCapacity_techs_Suc fgt_def Let_def rnd_half fsub_def)

text \<open>
  Claim C3, at an input where the code departs from it. \<open>isValid\<close> accepts one RAM device
  for the groups (1/2, 64 GiB) and (1/2, 1 byte). The simulator writes the fraction 1/2 of
  the first group to tier 0; it finds no room for the second group, writes 0 to each tier
  while it advances, and leaves the tier list: no fractions are returned, and those
  written sum to 1/2, while the fractions of the groups sum to 1.
\<close>

theorem mass_lost_on_overrun:
  "isValid techs [1, 0, 0, 0] [\<lparr>fraction = Fin (1 / 2), size_g = Fin (2 ^ 36)\<rparr>, \<lparr>fraction = Fin (1 / 2), size_g = Fin 1\<rparr>]
   = Inr True
   \<and> computeAccessFractions techs [\<lparr>fraction = Fin (1 / 2), size_g = Fin (2 ^ 36)\<rparr>, \<lparr>fraction = Fin (1 / 2), size_g = Fin 1\<rparr>]
       [1, 0, 0, 0] [Fin 0, Fin 0, Fin 0, Fin 0]
     = Inl OutOfRange
   \<and> map fractionsOut (simStates techs [\<lparr>fraction = Fin (1 / 2), size_g = Fin (2 ^ 36)\<rparr>, \<lparr>fraction = Fin (1 / 2), size_g = Fin 1\<rparr>]
         [1, 0, 0, 0] [Fin 0, Fin 0, Fin 0, Fin 0])
     = [[Fin 0, Fin 0, Fin 0, Fin 0], [Fin (1 / 2), Fin 0, Fin 0, Fin 0], [Fin (1 / 2), Fin 0, Fin 0, Fin 0],
        [Fin (1 / 2), Fin 0, Fin 0, Fin 0], [Fin (1 / 2), Fin 0, Fin 0, Fin 0]]
   \<and> total [Fin (1 / 2), Fin 0, Fin 0, Fin 0] = 1 / 2
   \<and> total (map fraction [\<lparr>fraction = Fin (1 / 2), size_g = Fin (2 ^ 36)\<rparr>, \<lparr>fraction = Fin (1 / 2), size_g = Fin 1\<rparr>]) = 1"
  using overrun_valid overrun_sim overrun_states by (simp add: total_def)

section \<open>Times stay far below the initial best time\<close>

lemma rnd_2_25_1: "rnd 33554433 = Fin 33554432"
proof -
  have "rfin 33554433 = of_int (rhe (33554433 / (2 ^ 151 / 2 ^ 149))) * (2 ^ 151 / 2 ^ 149)"
    by (rule rfin_binade) simp_all
  also have "\<dots> = 33554432" by (simp add: rhe_def)
  finally show ?thesis by (simp add: rnd_def)
qed

lemma rnd_2_25: "rnd 33554432 = Fin 33554432"
  using rnd_int [of 1 25] by simp

text \<open>What one turn of the inner loop computes when the group does not fit.\<close>

lemma spill_values:
  assumes s: "simNonneg s" and fr: "fraction g = Fin fr" "0 \<le> fr" "rnd fr = Fin fr"
    and sz: "fin_nonneg (size_g g)" and gt: "fgt (size_g g) (techCapacity s)"
  shows "\<exists>f1 f2. fmul (fdiv (techCapacity s) (size_g g)) (fraction g) = Fin f1 \<and> 0 \<le> f1 \<and> f1 \<le> fr
           \<and> fsub (fraction g) (Fin f1) = Fin f2 \<and> 0 \<le> f2 \<and> f2 \<le> fr \<and> rnd f2 = Fin f2"
proof -
  from sz obtain z where z: "size_g g = Fin z" "0 \<le> z" by (auto simp: fin_nonneg_iff)
  from s gt z obtain c where c: "techCapacity s = Fin c" "0 \<le> c" "c < z"
    by (cases "techCapacity s") (auto simp: simNonneg_def fgt_def)
  have "\<exists>q. rnd (c / z) = Fin q \<and> 0 \<le> q \<and> q \<le> 1"
    using c by (intro rnd_between) simp_all
  then obtain q where q: "rnd (c / z) = Fin q" "0 \<le> q" "q \<le> 1" by blast
  have "\<exists>r. rnd (q * fr) = Fin r \<and> 0 \<le> r \<and> r \<le> fr"
    using q fr by (intro rnd_between) (simp_all add: mult_left_le_one_le)
  then obtain f1 where f1: "rnd (q * fr) = Fin f1" "0 \<le> f1" "f1 \<le> fr" by blast
  have "\<exists>r. rnd (fr - f1) = Fin r \<and> 0 \<le> r \<and> r \<le> fr"
    using f1 fr by (intro rnd_between) simp_all
  then obtain f2 where f2: "rnd (fr - f1) = Fin f2" "0 \<le> f2" "f2 \<le> fr" by blast
  from f2(1) have "rnd f2 = Fin f2" by (rule rnd_rnd)
  with c z fr q f1 f2 show ?thesis by (simp add: fsub_def)
qed

lemma upTo_iff: "upTo B a \<longleftrightarrow> (\<exists>x. a = Fin x \<and> 0 \<le> x \<and> x \<le> B)"
  by (cases a) auto

lemma upTo_nonneg: "upTo B a \<Longrightarrow> nonneg a"
  by (cases a) auto

lemma upTo_mono: "upTo B a \<Longrightarrow> B \<le> B' \<Longrightarrow> upTo B' a"
  by (cases a) auto

lemma rnd_upTo: "0 \<le> x \<Longrightarrow> x \<le> B \<Longrightarrow> rnd B = Fin B \<Longrightarrow> upTo B (rnd x)"
  using rnd_between [of 0 x B] by auto

lemma accumulate_bound:
  assumes "upTo (2 ^ 25) a" "upTo 1 b"
  shows "upTo (2 ^ 25) (fadd a b)"
proof -
  from assms obtain x y where x: "a = Fin x" "0 \<le> x" "x \<le> 2 ^ 25"
    and y: "b = Fin y" "0 \<le> y" "y \<le> 1" by (auto simp: upTo_iff)
  from x y have "0 \<le> x + y" "x + y \<le> 33554433" by simp_all
  from rnd_mono [OF this(1)] rnd_mono [OF this(2)]
  have "fle (Fin 0) (rnd (x + y))" "fle (rnd (x + y)) (Fin 33554432)"
    by (simp_all add: rnd_2_25_1)
  then have "upTo (2 ^ 25) (rnd (x + y))" by (cases "rnd (x + y)") (auto simp: fle_def)
  with x y show ?thesis by simp
qed

lemma placeGroup_bounded:
  "\<forall>t<length ts. t < length c \<longrightarrow> nonneg (tierCapacity ts c t) \<Longrightarrow>
   simNonneg s \<Longrightarrow> list_all (upTo (2 ^ 25)) (fractionsOut s) \<Longrightarrow>
   wellFormed g \<Longrightarrow> upTo 1 (fraction g) \<Longrightarrow> placeGroup ts c g s = Inr s' \<Longrightarrow>
   simNonneg s' \<and> list_all (upTo (2 ^ 25)) (fractionsOut s')"
proof (induction ts c g s rule: placeGroup.induct)
  case (1 ts c g s)
  note cap = "1.prems"(1) and s = "1.prems"(2) and b = "1.prems"(3) and g = "1.prems"(4)
    and u = "1.prems"(5) and r = "1.prems"(6)
  from r have t: "tech s < length (fractionsOut s)"
    by (auto simp: placeGroup.simps [of ts c g s] split: if_splits)
  from b t have bt: "upTo (2 ^ 25) (fractionsOut s ! tech s)" by (simp add: list_all_length)
  show ?case
  proof (cases "fgt (size_g g) (techCapacity s)")
    case False
    from t False r have s': "s' = \<lparr>fractionsOut = (fractionsOut s)[tech s := fadd (fractionsOut s ! tech s) (fraction g)],
                tech = tech s, techCapacity = fsub (techCapacity s) (size_g g)\<rparr>"
      by (simp add: placeGroup.simps [of ts c g s])
    from fit_step [OF s g t False] have "simNonneg s'" by (simp add: s')
    moreover from bt u have "upTo (2 ^ 25) (fadd (fractionsOut s ! tech s) (fraction g))"
      by (rule accumulate_bound)
    with b have "list_all (upTo (2 ^ 25)) (fractionsOut s')"
      by (simp add: s' list_all_update)
    ultimately show ?thesis by simp
  next
    case gt: True
    define f where "f = fmul (fdiv (techCapacity s) (size_g g)) (fraction g)"
    define s1 where "s1 = \<lparr>fractionsOut = (fractionsOut s)[tech s := fadd (fractionsOut s ! tech s) f],
                      tech = tech s + 1, techCapacity = tierCapacity ts c (tech s + 1)\<rparr>"
    define g1 where "g1 = g\<lparr>fraction := fsub (fraction g) f\<rparr>"
    from t gt r have ok: "tech s + 1 < length c \<and> tech s + 1 < length ts"
      by (auto simp: placeGroup.simps [of ts c g s] Let_def split: if_splits)
    with t gt r have p: "placeGroup ts c g1 s1 = Inr s'"
      by (simp add: placeGroup.simps [of ts c g s] Let_def s1_def g1_def f_def)
    from g u obtain fr where fr: "fraction g = Fin fr" "0 \<le> fr" "rnd fr = Fin fr" "fr \<le> 1"
      by (auto simp: wellFormed_def upTo_iff)
    from g have sz: "fin_nonneg (size_g g)" by (simp add: wellFormed_def)
    from spill_values [OF s fr(1-3) sz gt] obtain f1 f2 where
      v: "f = Fin f1" "0 \<le> f1" "f1 \<le> fr" "fsub (fraction g) (Fin f1) = Fin f2" "0 \<le> f2"
         "f2 \<le> fr" "rnd f2 = Fin f2"
      unfolding f_def by blast
    from v fr sz have g1: "wellFormed g1" "upTo 1 (fraction g1)"
      by (simp_all add: g1_def wellFormed_def)
    from v fr have "upTo 1 f" by simp
    with bt have "upTo (2 ^ 25) (fadd (fractionsOut s ! tech s) f)" by (rule accumulate_bound)
    with b have b1: "list_all (upTo (2 ^ 25)) (fractionsOut s1)" by (simp add: s1_def list_all_update)
    then have "list_all nonneg (fractionsOut s1)"
      by (auto simp: list_all_iff dest: upTo_nonneg)
    moreover from ok cap have "nonneg (tierCapacity ts c (tech s + 1))" by simp
    ultimately have s1: "simNonneg s1" by (simp add: simNonneg_def s1_def)
    show ?thesis
      by (rule "1.IH" [OF _ gt refl refl refl refl ok cap])
         (use t s1 b1 g1 p in \<open>simp_all add: g1_def s1_def f_def\<close>)
  qed
qed

lemma placeGroups_bounded:
  assumes cap: "\<forall>t<length ts. t < length c \<longrightarrow> nonneg (tierCapacity ts c t)"
  shows "simNonneg s \<Longrightarrow> list_all (upTo (2 ^ 25)) (fractionsOut s) \<Longrightarrow>
         list_all (\<lambda>g. wellFormed g \<and> upTo 1 (fraction g)) w \<Longrightarrow> placeGroups ts c w s = Inr s' \<Longrightarrow>
         list_all (upTo (2 ^ 25)) (fractionsOut s')"
proof (induction w arbitrary: s)
  case Nil then show ?case by simp
next
  case (Cons g w)
  from Cons.prems(4) obtain s1 where p: "placeGroup ts c g s = Inr s1"
    and r: "placeGroups ts c w s1 = Inr s'" by (auto split: sum.splits)
  from Cons.prems(3) have g: "wellFormed g" "upTo 1 (fraction g)"
    and w: "list_all (\<lambda>g. wellFormed g \<and> upTo 1 (fraction g)) w" by simp_all
  from placeGroup_bounded [OF cap Cons.prems(1,2) g p] have
    "simNonneg s1" "list_all (upTo (2 ^ 25)) (fractionsOut s1)" by simp_all
  from Cons.IH [OF this w r] show ?case .
qed

lemma fractions_bounded:
  assumes caps: "\<forall>t\<in>set ts. fin_nonneg (capacity t)" and rng: "\<forall>n\<in>set c. n < 2 ^ 32"
    and wl: "list_all (\<lambda>g. wellFormed g \<and> upTo 1 (fraction g)) w"
    and r: "computeAccessFractions ts w c b = Inr (w', c', out)"
  shows "list_all (upTo (2 ^ 25)) out"
proof -
  define s0 where "s0 = \<lparr>fractionsOut = map (\<lambda>_. Fin 0) b, tech = 0, techCapacity = tierCapacity ts c 0\<rparr>"
  from r have ne: "c \<noteq> []" "ts \<noteq> []" by (auto simp: computeAccessFractions_def split: if_splits)
  from r ne obtain s' where p: "placeGroups ts c w s0 = Inr s'" and o: "out = fractionsOut s'"
    by (auto simp: computeAccessFractions_def s0_def split: sum.splits)
  note cap = tierCapacities_nonneg [OF caps rng]
  from ne cap have "nonneg (tierCapacity ts c 0)" by simp
  then have s0: "simNonneg s0" by (simp add: simNonneg_def s0_def list_all_iff)
  have b0: "list_all (upTo (2 ^ 25)) (fractionsOut s0)" by (simp add: s0_def list_all_iff)
  from placeGroups_bounded [OF cap s0 b0 wl p] o show ?thesis by simp
qed

lemma rnd_multiple:
  assumes "n < 2 ^ 24"
  shows "rnd (real n * 2 ^ 25) = Fin (real n * 2 ^ 25)"
  using rnd_int [of "int n" 25] assms by simp

lemma weighted_sum_bound:
  assumes "\<forall>i\<in>set is. upTo (2 ^ 25) (fr ! i) \<and> upTo 1 (k i)"
  shows "upTo (real j * 2 ^ 25) a \<Longrightarrow> j + length is < 2 ^ 24 \<Longrightarrow>
         upTo (real (j + length is) * 2 ^ 25) (foldl (\<lambda>s i. fadd s (fmul (fr ! i) (k i))) a is)"
  using assms
proof (induction "is" arbitrary: a j)
  case Nil then show ?case by simp
next
  case (Cons i "is")
  from Cons.prems(3) obtain x kk where x: "fr ! i = Fin x" "0 \<le> x" "x \<le> 2 ^ 25"
    and kk: "k i = Fin kk" "0 \<le> kk" "kk \<le> 1" by (auto simp: upTo_iff)
  from Cons.prems(1) obtain s where s: "a = Fin s" "0 \<le> s" "s \<le> real j * 2 ^ 25"
    by (auto simp: upTo_iff)
  from x kk have "x * kk \<le> 2 ^ 25 * 1" by (intro mult_mono) simp_all
  with x kk have "upTo 33554432 (rnd (x * kk))" by (intro rnd_upTo rnd_2_25) simp_all
  then obtain y where y: "rnd (x * kk) = Fin y" "0 \<le> y" "y \<le> 2 ^ 25" by (auto simp: upTo_iff)
  from Cons.prems(2) have j1: "Suc j < 2 ^ 24" by simp
  from s y have "s + y \<le> real (Suc j) * 2 ^ 25" by (simp add: algebra_simps)
  with s y have "upTo (real (Suc j) * 2 ^ 25) (rnd (s + y))"
    by (intro rnd_upTo rnd_multiple [OF j1]) simp_all
  with x kk s y have a': "upTo (real (Suc j) * 2 ^ 25) (fadd a (fmul (fr ! i) (k i)))" by simp
  from Cons.prems(2) have "Suc j + length is < 2 ^ 24" by simp
  from Cons.IH [OF a' this] Cons.prems(3) show ?case by simp
qed

lemma time_bound:
  assumes fr: "list_all (upTo (2 ^ 25)) fr" and len: "length ts < 2 ^ 24"
    and rates: "\<forall>t\<in>set ts. upTo 1 (fdiv (Fin 1) (IOs t)) \<and> upTo 1 (latency t)"
    and t: "(if opt then avgTimePerAccess ts fr else avgLatencyPerAccess ts fr) = Inr t"
  shows "flt t FLT_MAX"
proof -
  from t have le: "length fr \<le> length ts"
    by (auto simp: avgTimePerAccess_def avgLatencyPerAccess_def split: if_splits)
  with len have n: "0 + length [0..<length fr] < (2::nat) ^ 24" by simp
  have z: "upTo (real 0 * 2 ^ 25) (Fin 0)" by simp
  have "upTo (real (0 + length [0..<length fr]) * 2 ^ 25) t"
  proof (cases opt)
    case True
    have "\<forall>i\<in>set [0..<length fr]. upTo (2 ^ 25) (fr ! i)
            \<and> upTo 1 ((\<lambda>i. fdiv (Fin 1) (IOs (ts ! i))) i)"
      using fr rates le by (auto simp: list_all_length)
    from weighted_sum_bound [OF this z n] t True le show ?thesis
      by (simp add: avgTimePerAccess_def)
  next
    case False
    have "\<forall>i\<in>set [0..<length fr]. upTo (2 ^ 25) (fr ! i) \<and> upTo 1 ((\<lambda>i. latency (ts ! i)) i)"
      using fr rates le by (auto simp: list_all_length)
    from weighted_sum_bound [OF this z n] t False le show ?thesis
      by (simp add: avgLatencyPerAccess_def)
  qed
  then obtain x where x: "t = Fin x" "x \<le> real (length fr) * 2 ^ 25" by (auto simp: upTo_iff)
  from le len have "length fr < (2::nat) ^ 24" by simp
  then have "real (length fr) < real ((2::nat) ^ 24)" by (simp only: of_nat_less_iff)
  then have "real (length fr) * 2 ^ 25 < 2 ^ 24 * 2 ^ 25" by simp
  with x have "x < 2 ^ 49" by simp
  also have "(2::real) ^ 49 < (2 ^ 24 - 1) * 2 ^ 104" by simp
  finally show ?thesis by (simp add: x FLT_MAX_def)
qed

text \<open>
  With capacities that are finite and not negative, rates and latencies between 0 and 1,
  device counts in the range of \<^verbatim>\<open>unsigned\<close>, and fractions between 0 and 1, every time the
  search computes is below the initial best time.
\<close>

lemma times_below_max:
  assumes caps: "\<forall>t\<in>set ts. fin_nonneg (capacity t)" and len: "length ts < 2 ^ 24"
    and rates: "\<forall>t\<in>set ts. upTo 1 (fdiv (Fin 1) (IOs t)) \<and> upTo 1 (latency t)"
    and rng: "\<forall>n\<in>set c. n < 2 ^ 32"
    and wl: "list_all (\<lambda>g. wellFormed g \<and> upTo 1 (fraction g)) w"
    and t: "timeOf ts w opt c = Inr t"
  shows "flt t FLT_MAX"
proof -
  from t obtain w' c' fr where
    r: "computeAccessFractions ts w c (replicate (length ts) (Fin 0)) = Inr (w', c', fr)"
    and tm: "(if opt then avgTimePerAccess ts fr else avgLatencyPerAccess ts fr) = Inr t"
    by (auto simp: timeOf_def split: sum.splits)
  from fractions_bounded [OF caps rng wl r] have "list_all (upTo (2 ^ 25)) fr" .
  from this len rates tm show ?thesis by (rule time_bound)
qed

lemma small_constant:
  assumes "0 \<le> x" "x \<le> 1 / 512"
  shows "upTo (1 / 512) (rnd x)"
proof -
  have "rnd (1 / 512) = Fin (1 / 512)" using rnd_grid [of 1 140] by simp
  with assms show ?thesis by (intro rnd_upTo)
qed

lemma scaled_constant:
  assumes "upTo (1 / 512) a" "0 \<le> m" "m \<le> 512"
  shows "upTo 1 (fmul (Fin m) a)"
proof -
  from assms(1) obtain x where x: "a = Fin x" "0 \<le> x" "x \<le> 1 / 512" by (auto simp: upTo_iff)
  from x assms(2,3) have "m * x \<le> 512 * (1 / 512)" by (intro mult_mono) simp_all
  with x assms(2) have "upTo 1 (rnd (m * x))" by (intro rnd_upTo) simp_all
  with x show ?thesis by simp
qed

lemma techs_rates: "\<forall>t\<in>set techs. upTo 1 (fdiv (Fin 1) (IOs t)) \<and> upTo 1 (latency t)"
proof -
  have c: "upTo (1 / 512) ns" "upTo (1 / 512) us" "upTo (1 / 512) ms"
    by (simp_all add: ns_def us_def ms_def small_constant)
  have "fmul (Fin 10) M = Fin 10000000" "fmul (Fin 5) M = Fin 5000000" "fmul (Fin 500) K = Fin 500000"
    by (simp_all add: M_def K_def)
  then have "upTo 1 (fdiv (Fin 1) (fmul (Fin 10) M))" "upTo 1 (fdiv (Fin 1) (fmul (Fin 5) M))"
    "upTo 1 (fdiv (Fin 1) (fmul (Fin 500) K))" "upTo 1 (fdiv (Fin 1) (Fin 100))"
    by (simp_all add: rnd_upTo)
  moreover from c have "upTo 1 (fmul (Fin 100) ns)" "upTo 1 (fmul (Fin 400) ns)"
    "upTo 1 (fmul (Fin 100) us)" "upTo 1 (fmul (Fin 10) ms)"
    by (simp_all add: scaled_constant)
  ultimately show ?thesis by (simp add: techs_def)
qed

lemma techs_times_below_max:
  assumes wl: "list_all (\<lambda>g. wellFormed g \<and> upTo 1 (fraction g)) w"
    and c: "c \<in> set (allConfigs techs)" and t: "timeOf techs w opt c = Inr t"
  shows "flt t FLT_MAX"
proof -
  from allConfigs_bounds [OF c] have b: "length c = 4" "\<forall>t<4. c ! t < max_t (techs ! t)" by simp_all
  have "\<forall>n\<in>set c. n < 2 ^ 32"
  proof
    fix n assume "n \<in> set c"
    then obtain i where i: "i < length c" "n = c ! i" by (auto simp: in_set_conv_nth)
    with b have "n < max_t (techs ! i)" by simp
    moreover from i b(1) have "max_t (techs ! i) \<le> 16"
      by (auto simp: techs_def nth_Cons less_Suc_eq numeral_eq_Suc split: nat.splits)
    ultimately show "n < 2 ^ 32" by simp
  qed
  from techs_capacities_nonneg _ techs_rates this wl t show ?thesis
    by (rule times_below_max) simp
qed

text \<open>
  On the catalogue of the source, for a workload whose fractions lie between 0 and 1 and
  whose sizes are finite and not negative, the search returns the best candidate whenever
  it returns and there is a candidate.
\<close>

lemma techs_search_optimal:
  assumes "findBestConfig techs w l opt = Inr r"
    and "filter (candidate techs w l) (allConfigs techs) \<noteq> []"
    and wl: "list_all (\<lambda>g. wellFormed g \<and> upTo 1 (fraction g)) w"
  shows "\<exists>i. optimalAmong techs w l opt (length (allConfigs techs)) i r"
  using assms(1,2)
proof (rule findBestConfig_optimal_aux)
  show "\<forall>c\<in>set (allConfigs techs). candidate techs w l c \<longrightarrow>
          (\<forall>t. timeOf techs w opt c = Inr t \<longrightarrow> flt t FLT_MAX)"
    using techs_times_below_max [OF wl] by blast
qed

end
